theory Spec2Isabelle
  imports Main "HOL-Library.Sublist" "HOL-Library.Signed_Division"
begin

section \<open>Data model (src/app/utils.ts, lines 47-63)\<close>

text \<open>
  \<^verbatim>\<open>FileTreeNode\<close> is the loosely typed node of the source: a tag, a name, a path and
  an optional \<^verbatim>\<open>children\<close> array. \<open>None\<close> stands for a \<^verbatim>\<open>children\<close> field that is
  missing or not an array (\<^verbatim>\<open>Array.isArray\<close> is false); nothing in the type keeps a
  \<open>File\<close> from carrying children. The optional metadata fields (extension, size,
  modification time) are read by none of the functions below and are left out.
  JavaScript strings are modelled as \<open>string\<close>, a character being a code point from
  U+0000 to U+00FF.
\<close>

datatype NodeType = File | Folder

datatype FileTreeNode =
  FileTreeNode (type: NodeType) (name: string) (path: string)
    (children: "FileTreeNode list option")

record VisibleNode =
  node :: FileTreeNode
  depth :: nat

text \<open>The idiom \<^verbatim>\<open>Array.isArray(node.children) ? node.children : []\<close>.\<close>

definition childArray :: "FileTreeNode \<Rightarrow> FileTreeNode list" where
  "childArray n = (case children n of Some cs \<Rightarrow> cs | None \<Rightarrow> [])"

text \<open>
  Reading an array out of range gives \<^verbatim>\<open>undefined\<close> in JavaScript, and the property
  access that follows throws a \<^verbatim>\<open>TypeError\<close>. Indices are JavaScript numbers, here
  \<open>int\<close>.
\<close>

datatype error = TypeError

definition at :: "'a list \<Rightarrow> int \<Rightarrow> error + 'a" where
  "at xs i = (if 0 \<le> i \<and> i < int (length xs) then Inr (xs ! nat i) else Inl TypeError)"

text \<open>\<^verbatim>\<open>Array.prototype.findIndex\<close>: the first index that satisfies the predicate, or -1.\<close>

fun findIndexFrom :: "('a \<Rightarrow> bool) \<Rightarrow> int \<Rightarrow> 'a list \<Rightarrow> int" where
  "findIndexFrom P i [] = -1"
| "findIndexFrom P i (x # xs) = (if P x then i else findIndexFrom P (i + 1) xs)"

definition findIndex :: "('a \<Rightarrow> bool) \<Rightarrow> 'a list \<Rightarrow> int" where
  "findIndex P xs = findIndexFrom P 0 xs"

text \<open>
  A \<^verbatim>\<open>string | null\<close> in a condition: \<^verbatim>\<open>null\<close> and the empty string are falsy.
\<close>

definition truthy :: "string option \<Rightarrow> bool" where
  "truthy p = (case p of None \<Rightarrow> False | Some q \<Rightarrow> q \<noteq> [])"

section \<open>Tree projection (src/unnamed/part_001, lines 377-392)\<close>

lemma size_childArray: "c \<in> set (childArray n) \<Longrightarrow> size c < size n"
proof (cases n)
  case (FileTreeNode t nm p ch)
  assume c: "c \<in> set (childArray n)"
  show ?thesis
  proof (cases ch)
    case None
    with c FileTreeNode show ?thesis by (simp add: childArray_def)
  next
    case (Some cs)
    with c FileTreeNode have "c \<in> set cs" by (simp add: childArray_def)
    then have "size c \<le> size_list size cs" by (simp add: size_list_estimation')
    with Some FileTreeNode show ?thesis by simp
  qed
qed

text \<open>
  \<^verbatim>\<open>visit\<close> pushes onto the shared array \<^verbatim>\<open>result\<close>; the array is passed in and
  returned. \<^verbatim>\<open>children.forEach\<close> is the left fold over the children.
\<close>

function visit ::
  "string set \<Rightarrow> FileTreeNode \<Rightarrow> nat \<Rightarrow> VisibleNode list \<Rightarrow> VisibleNode list" where
  "visit expanded n d result =
     (let result1 = result @ [\<lparr>node = n, depth = d\<rparr>] in
      if type n = Folder \<and> path n \<in> expanded
      then foldl (\<lambda>r child. visit expanded child (d + 1) r) result1 (childArray n)
      else result1)"
  by pat_completeness auto
termination
  by (relation "measure (\<lambda>(e, n, d, r). size n)") (auto simp: size_childArray)

definition flattenTree :: "FileTreeNode \<Rightarrow> string set \<Rightarrow> VisibleNode list" where
  "flattenTree root expanded = visit expanded root 0 []"

text \<open>
  The specification's wording of the projection: depth-first pre-order, the node first,
  then, for a folder whose path is in the expansion set, the projections of its children
  in order, one level deeper.
\<close>

function preorder :: "string set \<Rightarrow> FileTreeNode \<Rightarrow> nat \<Rightarrow> VisibleNode list" where
  "preorder expanded n d =
     \<lparr>node = n, depth = d\<rparr> #
       (if type n = Folder \<and> path n \<in> expanded
        then concat (map (\<lambda>child. preorder expanded child (d + 1)) (childArray n))
        else [])"
  by pat_completeness auto
termination
  by (relation "measure (\<lambda>(e, n, d). size n)") (auto simp: size_childArray)

section \<open>File count (src/app/utils.ts, lines 1-18)\<close>

function countFilesWithinFolder :: "FileTreeNode \<Rightarrow> nat" where
  "countFilesWithinFolder n =
     (if type n \<noteq> Folder then 0
      else foldl (\<lambda>total child.
                    if type child = File then total + 1
                    else total + countFilesWithinFolder child) 0 (childArray n))"
  by pat_completeness auto
termination
  by (relation "measure size") (auto simp: size_childArray)

text \<open>
  The descendants of a node in the data model of the specification, where only a folder
  has children: the children of a folder, each followed by its own descendants.
\<close>

function descendants :: "FileTreeNode \<Rightarrow> FileTreeNode list" where
  "descendants n =
     (if type n = Folder
      then concat (map (\<lambda>child. child # descendants child) (childArray n))
      else [])"
  by pat_completeness auto
termination
  by (relation "measure size") (auto simp: size_childArray)

section \<open>Searching the tree by path (src/unnamed/part_001, lines 394-460)\<close>

lemma sum_size_childArray:
  "sum_list (map size (childArray n)) + length (childArray n) < size n"
proof (cases n)
  case (FileTreeNode t nm p ch)
  then show ?thesis
    by (cases ch) (simp_all add: childArray_def size_list_conv_sum_list)
qed

lemma sum_list_butlast_last:
  fixes f :: "'a \<Rightarrow> nat"
  shows "xs \<noteq> [] \<Longrightarrow> sum_list (map f xs) = sum_list (map f (butlast xs)) + f (last xs)"
  by (induction xs rule: rev_induct) simp_all

text \<open>
  The \<^verbatim>\<open>while\<close> loop of \<^verbatim>\<open>findNodeByPath\<close>. The stack is an array whose top is
  its last element: \<^verbatim>\<open>pop\<close> takes the last element and \<^verbatim>\<open>push(...children)\<close>
  appends. (The test \<^verbatim>\<open>if (!current) continue\<close> never fires: the stack is not empty
  and holds nodes.)
\<close>

function findNodeLoop :: "string \<Rightarrow> FileTreeNode list \<Rightarrow> FileTreeNode option" where
  "findNodeLoop p stack =
     (if length stack > 0 then
        (let current = last stack; stack1 = butlast stack in
         if path current = p then Some current
         else if type current = Folder \<and> children current \<noteq> None
         then findNodeLoop p (stack1 @ childArray current)
         else findNodeLoop p stack1)
      else None)"
  by pat_completeness auto
termination
proof (relation "measure (\<lambda>(p, stack). sum_list (map size stack) + length stack)")
  show "wf (measure (\<lambda>(p, stack). sum_list (map size stack) + length stack))" by simp
next
  fix p :: string and stack :: "FileTreeNode list" and x xa
  assume ne: "0 < length stack" and x: "x = last stack" and xa: "xa = butlast stack"
  from ne have "sum_list (map size stack) + length stack =
      sum_list (map size (butlast stack)) + size (last stack) + (length (butlast stack) + 1)"
    by (simp add: sum_list_butlast_last)
  moreover have "sum_list (map size (childArray (last stack))) + length (childArray (last stack))
      < size (last stack)"
    by (rule sum_size_childArray)
  ultimately show "((p, xa @ childArray x), (p, stack))
      \<in> measure (\<lambda>(p, stack). sum_list (map size stack) + length stack)"
    using x xa by simp
next
  fix p :: string and stack :: "FileTreeNode list" and x xa
  assume ne: "0 < length stack" and x: "x = last stack" and xa: "xa = butlast stack"
  from ne have "sum_list (map size stack) + length stack =
      sum_list (map size (butlast stack)) + size (last stack) + (length (butlast stack) + 1)"
    by (simp add: sum_list_butlast_last)
  then show "((p, xa), (p, stack))
      \<in> measure (\<lambda>(p, stack). sum_list (map size stack) + length stack)"
    using xa by simp
qed

definition findNodeByPath :: "FileTreeNode option \<Rightarrow> string option \<Rightarrow> FileTreeNode option" where
  "findNodeByPath root p =
     (case root of
        None \<Rightarrow> None
      | Some r \<Rightarrow>
          if \<not> truthy p then None
          else if Some (path r) = p then Some r
          else findNodeLoop (the p) (childArray r))"

text \<open>
  The loop of \<^verbatim>\<open>findParentPath\<close>: its stack holds each node with the path of the node
  whose child it is.
\<close>

function findParentLoop :: "string \<Rightarrow> (FileTreeNode \<times> string) list \<Rightarrow> string option" where
  "findParentLoop p stack =
     (if length stack > 0 then
        (let current = last stack; stack1 = butlast stack in
         if path (fst current) = p then Some (snd current)
         else if type (fst current) = Folder \<and> children (fst current) \<noteq> None
         then findParentLoop p
                (stack1 @ map (\<lambda>child. (child, path (fst current))) (childArray (fst current)))
         else findParentLoop p stack1)
      else None)"
  by pat_completeness auto
termination
proof (relation "measure (\<lambda>(p, stack). sum_list (map (size \<circ> fst) stack) + length stack)")
  show "wf (measure (\<lambda>(p, stack). sum_list (map (size \<circ> fst) stack) + length stack))"
    by simp
next
  fix p :: string and stack :: "(FileTreeNode \<times> string) list" and x xa
  assume ne: "0 < length stack" and x: "x = last stack" and xa: "xa = butlast stack"
  from ne have "sum_list (map (size \<circ> fst) stack) + length stack =
      sum_list (map (size \<circ> fst) (butlast stack)) + size (fst (last stack))
        + (length (butlast stack) + 1)"
    by (simp add: sum_list_butlast_last)
  moreover have "sum_list (map size (childArray (fst (last stack))))
      + length (childArray (fst (last stack))) < size (fst (last stack))"
    by (rule sum_size_childArray)
  ultimately show "((p, xa @ map (\<lambda>child. (child, path (fst x))) (childArray (fst x))), (p, stack))
      \<in> measure (\<lambda>(p, stack). sum_list (map (size \<circ> fst) stack) + length stack)"
    using x xa by (simp add: comp_def)
next
  fix p :: string and stack :: "(FileTreeNode \<times> string) list" and x xa
  assume ne: "0 < length stack" and x: "x = last stack" and xa: "xa = butlast stack"
  from ne have "sum_list (map (size \<circ> fst) stack) + length stack =
      sum_list (map (size \<circ> fst) (butlast stack)) + size (fst (last stack))
        + (length (butlast stack) + 1)"
    by (simp add: sum_list_butlast_last)
  then show "((p, xa), (p, stack))
      \<in> measure (\<lambda>(p, stack). sum_list (map (size \<circ> fst) stack) + length stack)"
    using xa by simp
qed

definition findParentPath :: "FileTreeNode option \<Rightarrow> string option \<Rightarrow> string option" where
  "findParentPath root targetPath =
     (case root of
        None \<Rightarrow> None
      | Some r \<Rightarrow>
          if \<not> truthy targetPath \<or> Some (path r) = targetPath then None
          else findParentLoop (the targetPath)
                 (map (\<lambda>child. (child, path r)) (childArray r)))"

text \<open>
  The order in which the two loops meet the nodes: the root, then what the stack
  discipline gives: the last child first, a folder's children before the earlier
  siblings. Below the root, only a folder's children are entered.
\<close>

function subtreeOrder :: "FileTreeNode \<Rightarrow> FileTreeNode list" where
  "subtreeOrder n =
     n # (if type n = Folder then concat (map subtreeOrder (rev (childArray n))) else [])"
  by pat_completeness auto
termination
  by (relation "measure size") (auto simp: size_childArray)

definition searchOrder :: "FileTreeNode \<Rightarrow> FileTreeNode list" where
  "searchOrder root = root # concat (map subtreeOrder (rev (childArray root)))"

section \<open>Type-ahead search (src/app/utils.ts, lines 20-45)\<close>

text \<open>
  The string operations of the source. A character of a \<open>string\<close> is a code point from
  U+0000 to U+00FF. Of these, \<^verbatim>\<open>String.prototype.trim\<close> strips, at both ends, the
  white space and line terminators U+0009 to U+000D, U+0020 and U+00A0 (the no-break
  space); \<^verbatim>\<open>String.prototype.toLowerCase\<close> maps U+0041 to U+005A (A to Z) and
  U+00C0 to U+00DE except U+00D7 (the multiplication sign) to the code point 32 higher and
  leaves every other one; \<^verbatim>\<open>startsWith\<close> is the prefix test.
\<close>

definition isWhiteSpace :: "char \<Rightarrow> bool" where
  "isWhiteSpace c =
     (c \<in> set [CHR 0x09, CHR 0x0A, CHR 0x0B, CHR 0x0C, CHR 0x0D, CHR '' '', CHR 0xA0])"

definition trim :: "string \<Rightarrow> string" where
  "trim s = rev (dropWhile isWhiteSpace (rev (dropWhile isWhiteSpace s)))"

definition toLowerChar :: "char \<Rightarrow> char" where
  "toLowerChar c =
     (let k = (of_char c :: nat) in
      if (65 \<le> k \<and> k \<le> 90) \<or> (192 \<le> k \<and> k \<le> 222 \<and> k \<noteq> 215)
      then char_of (k + 32) else c)"

definition toLowerCase :: "string \<Rightarrow> string" where
  "toLowerCase s = map toLowerChar s"

definition startsWith :: "string \<Rightarrow> string \<Rightarrow> bool" where
  "startsWith s q = prefix q s"

text \<open>
  The \<^verbatim>\<open>for\<close> loop of \<^verbatim>\<open>findTypeaheadMatch\<close>, from \<^verbatim>\<open>offset\<close> to \<^verbatim>\<open>total\<close> (here \<open>total'\<close>).
  JavaScript's \<^verbatim>\<open>%\<close> truncates towards zero: \<open>smod\<close>.
\<close>

function typeaheadLoop ::
  "string \<Rightarrow> VisibleNode list \<Rightarrow> int \<Rightarrow> int \<Rightarrow> int \<Rightarrow> error + VisibleNode option" where
  "typeaheadLoop normalized nodes startIndex total' offset =
     (if offset \<le> total' then
        (let index = (startIndex + offset + total') smod total' in
         case at nodes index of
           Inl e \<Rightarrow> Inl e
         | Inr candidate \<Rightarrow>
             if startsWith (toLowerCase (name (node candidate))) normalized
             then Inr (Some candidate)
             else typeaheadLoop normalized nodes startIndex total' (offset + 1))
      else Inr None)"
  by pat_completeness auto
termination
  by (relation "measure (\<lambda>(q, ns, st, total', offset). nat (total' + 1 - offset))") auto

definition findTypeaheadMatch ::
  "string \<Rightarrow> VisibleNode list \<Rightarrow> string option \<Rightarrow> error + VisibleNode option" where
  "findTypeaheadMatch query nodes selectedPath =
     (let normalized = toLowerCase (trim query) in
      if normalized = [] \<or> length nodes = 0 then Inr None
      else
        (let startIndex =
               (if truthy selectedPath
                then findIndex (\<lambda>item. Some (path (node item)) = selectedPath) nodes
                else -1);
             total' = int (length nodes)
         in typeaheadLoop normalized nodes startIndex total' 1))"

section \<open>The explorer's state and its keyboard handler (src/unnamed/part_001, lines 16-259)\<close>

text \<open>
  The component's state, as far as navigation reads or writes it: the tree, the expansion
  set, the selection and the type-ahead buffer. (\<^verbatim>\<open>loading\<close> and \<^verbatim>\<open>error\<close> only
  steer what is rendered.)
\<close>

record TypeaheadState =
  buffer :: string
  lastInputTime :: int

record ExplorerState =
  tree :: "FileTreeNode option"
  expanded :: "string set"
  selectedPath :: "string option"
  typeaheadState :: TypeaheadState

record KeyEvent =
  key :: string
  defaultPrevented :: bool

definition TYPEAHEAD_RESET_MS :: int where
  "TYPEAHEAD_RESET_MS = 800"

definition visibleNodes :: "ExplorerState \<Rightarrow> VisibleNode list" where
  "visibleNodes s = (case tree s of Some t \<Rightarrow> flattenTree t (expanded s) | None \<Rightarrow> [])"

definition selectedNode :: "ExplorerState \<Rightarrow> FileTreeNode option" where
  "selectedNode s = findNodeByPath (tree s) (selectedPath s)"

text \<open>
  The \<^verbatim>\<open>source.onmessage\<close> handler (lines 71-89), on a payload that parsed.
\<close>

definition onmessage :: "bool \<Rightarrow> FileTreeNode \<Rightarrow> ExplorerState \<Rightarrow> ExplorerState" where
  "onmessage cancelled payload s =
     (if cancelled then s
      else s\<lparr>tree := Some payload,
             selectedPath :=
               (let previous = selectedPath s in
                if \<not> truthy previous then previous
                else if findNodeByPath (Some payload) previous \<noteq> None then previous
                else None)\<rparr>)"

text \<open>
  \<^verbatim>\<open>moveSelection\<close> (lines 149-171) closes over the visible nodes and the selection;
  here it takes them as arguments and returns the selection after the call.
\<close>

definition moveSelection ::
  "int \<Rightarrow> VisibleNode list \<Rightarrow> string option \<Rightarrow> error + string option" where
  "moveSelection delta vis sel =
     (if length vis = 0 then Inr sel
      else
        (let currentIndex =
               (if truthy sel then findIndex (\<lambda>item. Some (path (node item)) = sel) vis
                else -1)
         in
         if currentIndex = -1 then
           (let fallbackIndex = (if delta > 0 then 0 else int (length vis) - 1) in
            case at vis fallbackIndex of
              Inl e \<Rightarrow> Inl e
            | Inr item \<Rightarrow> Inr (Some (path (node item))))
         else
           (let nextIndex = min (max (currentIndex + delta) 0) (int (length vis) - 1) in
            if nextIndex \<noteq> currentIndex then
              (case at vis nextIndex of
                 Inl e \<Rightarrow> Inl e
               | Inr item \<Rightarrow> Inr (Some (path (node item))))
            else Inr sel)))"

text \<open>The \<^verbatim>\<open>ArrowRight\<close> case (lines 198-220).\<close>

definition arrowRight :: "ExplorerState \<Rightarrow> error + ExplorerState" where
  "arrowRight s =
     (case selectedNode s of
        None \<Rightarrow>
          if length (visibleNodes s) > 0 then
            (case at (visibleNodes s) 0 of
               Inl e \<Rightarrow> Inl e
             | Inr item \<Rightarrow> Inr (s\<lparr>selectedPath := Some (path (node item))\<rparr>))
          else Inr s
      | Some sn \<Rightarrow>
          if type sn = Folder then
            (if path sn \<notin> expanded s
             then Inr (s\<lparr>expanded := insert (path sn) (expanded s)\<rparr>)
             else
               (case childArray sn of
                  [] \<Rightarrow> Inr s
                | firstChild # _ \<Rightarrow> Inr (s\<lparr>selectedPath := Some (path firstChild)\<rparr>)))
          else Inr s)"

text \<open>The \<^verbatim>\<open>ArrowLeft\<close> case (lines 221-236).\<close>

definition arrowLeft :: "ExplorerState \<Rightarrow> ExplorerState" where
  "arrowLeft s =
     (case selectedNode s of
        None \<Rightarrow> s
      | Some sn \<Rightarrow>
          if type sn = Folder \<and> path sn \<in> expanded s
          then s\<lparr>expanded := expanded s - {path sn}\<rparr>
          else
            (let parentPath = findParentPath (tree s) (selectedPath s) in
             if truthy parentPath then s\<lparr>selectedPath := parentPath\<rparr> else s))"

text \<open>
  \<^verbatim>\<open>handleTreeKeyDown\<close> (lines 144-259); \<open>now\<close> is the value of \<^verbatim>\<open>Date.now()\<close>.
\<close>

definition handleTreeKeyDown :: "KeyEvent \<Rightarrow> int \<Rightarrow> ExplorerState \<Rightarrow> error + ExplorerState" where
  "handleTreeKeyDown event now s =
     (if defaultPrevented event then Inr s
      else if key event = ''ArrowDown'' then
        (case moveSelection 1 (visibleNodes s) (selectedPath s) of
           Inl e \<Rightarrow> Inl e
         | Inr sel \<Rightarrow> Inr (s\<lparr>selectedPath := sel\<rparr>))
      else if key event = ''ArrowUp'' then
        (case moveSelection (-1) (visibleNodes s) (selectedPath s) of
           Inl e \<Rightarrow> Inl e
         | Inr sel \<Rightarrow> Inr (s\<lparr>selectedPath := sel\<rparr>))
      else if key event = ''ArrowRight'' then arrowRight s
      else if key event = ''ArrowLeft'' then Inr (arrowLeft s)
      else if key event = ''Escape'' then
        Inr (s\<lparr>typeaheadState := \<lparr>buffer = [], lastInputTime = 0\<rparr>\<rparr>)
      else
        (let shouldReset = now - lastInputTime (typeaheadState s) > TYPEAHEAD_RESET_MS;
             nextBuffer =
               toLowerCase
                 (if shouldReset then key event else buffer (typeaheadState s) @ key event);
             s1 = s\<lparr>typeaheadState := \<lparr>buffer = nextBuffer, lastInputTime = now\<rparr>\<rparr>
         in
         case findTypeaheadMatch nextBuffer (visibleNodes s) (selectedPath s) of
           Inl e \<Rightarrow> Inl e
         | Inr None \<Rightarrow> Inr s1
         | Inr (Some m) \<Rightarrow> Inr (s1\<lparr>selectedPath := Some (path (node m))\<rparr>)))"

section \<open>The shared watcher and the coalescer (src/unnamed/part_000)\<close>

text \<open>
  The module-level state of the stream route: the watch handle, the debounce timer and
  the emitter's listeners. A watch handle is the number of the \<^verbatim>\<open>watch\<close> call that
  made it, a pending timer is the time in milliseconds at which it is due, a callback is
  a number. Three fields record what the module does to the outside: how many handles
  were opened, which were closed, and when \<^verbatim>\<open>emitter.emit\<close> ran.
\<close>

record ServerState =
  watcher :: "nat option"
  debounceTimer :: "nat option"
  listeners :: "nat list"
  opened :: nat
  closed :: "nat list"
  emitted :: "nat list"

definition COALESCE_MS :: nat where
  "COALESCE_MS = 75"

definition initialServer :: ServerState where
  "initialServer =
     \<lparr>watcher = None, debounceTimer = None, listeners = [], opened = 0, closed = [],
      emitted = []\<rparr>"

text \<open>
  \<^verbatim>\<open>ensureWatcher\<close> is asynchronous and suspends between its test and its
  assignment:
  \<^verbatim>\<open>if (watcher) return; await ensureTreeOnDisk(); watcher = watch(...)\<close>.
  \<open>ensureWatcher_returns\<close> is the test, made when the function is called;
  \<open>ensureWatcher_watch\<close> is what runs when the promise of \<^verbatim>\<open>ensureTreeOnDisk\<close>
  (the external tree collaborator, which works on the disk) has resolved, in a later turn
  of the event loop. The assignment does not test \<^verbatim>\<open>watcher\<close> again.
\<close>

definition ensureWatcher_returns :: "ServerState \<Rightarrow> bool" where
  "ensureWatcher_returns s = (watcher s \<noteq> None)"

definition ensureWatcher_watch :: "ServerState \<Rightarrow> ServerState" where
  "ensureWatcher_watch s = s\<lparr>watcher := Some (opened s), opened := opened s + 1\<rparr>"

definition stopWatcher :: "ServerState \<Rightarrow> ServerState" where
  "stopWatcher s =
     (case watcher s of
        None \<Rightarrow> s
      | Some h \<Rightarrow> s\<lparr>watcher := None, closed := closed s @ [h]\<rparr>)"

text \<open>\<^verbatim>\<open>emitter.off\<close> removes the most recently added instance of the listener.\<close>

definition off :: "nat \<Rightarrow> nat list \<Rightarrow> nat list" where
  "off callback ls = rev (remove1 callback (rev ls))"

text \<open>
  \<^verbatim>\<open>subscribeToFileTreeChanges\<close> is asynchronous too:
  \<^verbatim>\<open>await ensureWatcher(); emitter.on(FILE_EVENTS, callback); return () => ...\<close>.
  \<open>subscribeToFileTreeChanges_on\<close> is what runs after the \<^verbatim>\<open>await\<close>, and
  \<open>unsubscribe\<close> is the function it returns, which runs in one piece.
\<close>

definition subscribeToFileTreeChanges_on :: "nat \<Rightarrow> ServerState \<Rightarrow> ServerState" where
  "subscribeToFileTreeChanges_on callback s = s\<lparr>listeners := listeners s @ [callback]\<rparr>"

definition unsubscribe :: "nat \<Rightarrow> ServerState \<Rightarrow> ServerState" where
  "unsubscribe callback s =
     (let s1 = s\<lparr>listeners := off callback (listeners s)\<rparr> in
      if length (listeners s1) = 0 then stopWatcher s1 else s1)"

text \<open>
  The route with its calls in flight. A call of \<^verbatim>\<open>subscribeToFileTreeChanges\<close> is
  suspended either inside \<^verbatim>\<open>ensureWatcher\<close>, at \<^verbatim>\<open>await ensureTreeOnDisk()\<close>
  (\<open>AwaitTree\<close>), or at its own \<^verbatim>\<open>await ensureWatcher()\<close>, with
  \<^verbatim>\<open>ensureWatcher\<close> finished (\<open>AwaitWatcher\<close>). Calls are told apart by their
  callbacks. A step is one uninterrupted piece of the code:
  \<^item> \<open>Subscribe\<close>: \<^verbatim>\<open>GET\<close> calls \<^verbatim>\<open>subscribeToFileTreeChanges\<close>, which calls
    \<^verbatim>\<open>ensureWatcher\<close>, which tests \<^verbatim>\<open>watcher\<close> and returns or suspends;
  \<^item> \<open>TreeOnDisk\<close>: \<^verbatim>\<open>ensureTreeOnDisk\<close> has resolved for that call, and
    \<^verbatim>\<open>ensureWatcher\<close> goes on to its assignment;
  \<^item> \<open>Continue\<close>: the call goes on after \<^verbatim>\<open>await ensureWatcher()\<close> and registers
    its callback;
  \<^item> \<open>Unsubscribe\<close>: the function the call returned is run.
  A step that names a call which is not suspended where the step needs it changes nothing.
  (The watcher's \<^verbatim>\<open>error\<close> event, which also stops the watcher, is not a step here.)
\<close>

datatype phase = AwaitTree | AwaitWatcher

record RouteState =
  server :: ServerState
  suspended :: "(nat \<times> phase) list"

definition initialRoute :: RouteState where
  "initialRoute = \<lparr>server = initialServer, suspended = []\<rparr>"

datatype step = Subscribe nat | TreeOnDisk nat | Continue nat | Unsubscribe nat

fun apply_step :: "RouteState \<Rightarrow> step \<Rightarrow> RouteState" where
  "apply_step r (Subscribe callback) =
     r\<lparr>suspended := suspended r @
         [(callback, if ensureWatcher_returns (server r) then AwaitWatcher else AwaitTree)]\<rparr>"
| "apply_step r (TreeOnDisk callback) =
     (if (callback, AwaitTree) \<in> set (suspended r)
      then r\<lparr>server := ensureWatcher_watch (server r),
             suspended := remove1 (callback, AwaitTree) (suspended r)
                            @ [(callback, AwaitWatcher)]\<rparr>
      else r)"
| "apply_step r (Continue callback) =
     (if (callback, AwaitWatcher) \<in> set (suspended r)
      then r\<lparr>server := subscribeToFileTreeChanges_on callback (server r),
             suspended := remove1 (callback, AwaitWatcher) (suspended r)\<rparr>
      else r)"
| "apply_step r (Unsubscribe callback) = r\<lparr>server := unsubscribe callback (server r)\<rparr>"

definition run_steps :: "step list \<Rightarrow> RouteState" where
  "run_steps steps = foldl apply_step initialRoute steps"

text \<open>
  A subscription with nothing in between: the call, the resolution of
  \<^verbatim>\<open>ensureTreeOnDisk\<close> where the call waits for it, and the registration.
\<close>

definition subscribeAlone :: "nat \<Rightarrow> RouteState \<Rightarrow> RouteState" where
  "subscribeAlone callback r =
     apply_step (apply_step (apply_step r (Subscribe callback)) (TreeOnDisk callback))
       (Continue callback)"

text \<open>
  What the specification asks of the route when no call is in flight: the handle is there
  exactly when a callback is registered, and every handle that was opened is the current
  one or has been closed.
\<close>

definition settled :: "RouteState \<Rightarrow> bool" where
  "settled r =
     (suspended r = []
      \<and> (watcher (server r) \<noteq> None) = (listeners (server r) \<noteq> [])
      \<and> opened (server r) = length (closed (server r))
           + (case watcher (server r) of None \<Rightarrow> 0 | Some h \<Rightarrow> 1))"

text \<open>
  \<^verbatim>\<open>scheduleEmit\<close> at time \<open>now\<close>, and the callback it hands to
  \<^verbatim>\<open>setTimeout\<close>.
\<close>

definition scheduleEmit :: "nat \<Rightarrow> ServerState \<Rightarrow> ServerState" where
  "scheduleEmit now s =
     (if debounceTimer s \<noteq> None then s
      else s\<lparr>debounceTimer := Some (now + COALESCE_MS)\<rparr>)"

definition timerCallback :: "nat \<Rightarrow> ServerState \<Rightarrow> ServerState" where
  "timerCallback now s = s\<lparr>debounceTimer := None, emitted := emitted s @ [now]\<rparr>"

text \<open>
  The timer of \<^verbatim>\<open>setTimeout\<close> on a clock of milliseconds: a timer set at time \<open>t\<close>
  runs its callback at \<open>t + COALESCE_MS\<close>, before any raw event of that time or later is
  handled. \<open>rawEvents\<close> handles the raw filesystem events that arrive at the given
  times (in the order of the list), and \<open>settle\<close> lets a timer that is still pending
  run.
\<close>

definition runTimers :: "nat \<Rightarrow> ServerState \<Rightarrow> ServerState" where
  "runTimers now s =
     (case debounceTimer s of
        None \<Rightarrow> s
      | Some due \<Rightarrow> if due \<le> now then timerCallback due s else s)"

fun rawEvents :: "nat list \<Rightarrow> ServerState \<Rightarrow> ServerState" where
  "rawEvents [] s = s"
| "rawEvents (t # ts) s = rawEvents ts (scheduleEmit t (runTimers t s))"

definition settle :: "ServerState \<Rightarrow> ServerState" where
  "settle s = (case debounceTimer s of None \<Rightarrow> s | Some due \<Rightarrow> timerCallback due s)"

section \<open>Example inputs\<close>

definition exFile :: "string \<Rightarrow> string \<Rightarrow> FileTreeNode" where
  "exFile nm p = FileTreeNode File nm p None"

definition exSub :: FileTreeNode where
  "exSub = FileTreeNode Folder ''b'' ''root/b'' (Some [exFile ''c.txt'' ''root/b/c.txt''])"

definition exTree :: FileTreeNode where
  "exTree = FileTreeNode Folder ''root'' ''root'' (Some [exFile ''a.txt'' ''root/a.txt'', exSub])"

definition exCountTree :: FileTreeNode where
  "exCountTree = FileTreeNode Folder ''src'' ''root/src''
     (Some [exFile ''a.ts'' ''root/src/a.ts'', exFile ''b.ts'' ''root/src/b.ts'',
            exFile ''c.ts'' ''root/src/c.ts'',
            FileTreeNode Folder ''lib'' ''root/src/lib''
              (Some [exFile ''d.ts'' ''root/src/lib/d.ts'', exFile ''e.ts'' ''root/src/lib/e.ts''])])"

definition exVisible :: "VisibleNode list" where
  "exVisible = flattenTree exTree {''root''}"

definition exState :: "string option \<Rightarrow> string set \<Rightarrow> ExplorerState" where
  "exState sel es =
     \<lparr>tree = Some exTree, expanded = es, selectedPath = sel,
      typeaheadState = \<lparr>buffer = [], lastInputTime = 0\<rparr>\<rparr>"

definition exTree2 :: FileTreeNode where
  "exTree2 = FileTreeNode Folder ''root'' ''root'' (Some [exFile ''z.txt'' ''root/z.txt'', exSub])"

definition exNamed :: "string \<Rightarrow> VisibleNode" where
  "exNamed nm = \<lparr>node = exFile nm (''root/'' @ nm), depth = 1\<rparr>"

definition exNames :: "VisibleNode list" where
  "exNames = [exNamed ''Apple'', exNamed ''banana'', exNamed ''Cherry'', exNamed ''apricot'']"

definition exTrimNodes :: "VisibleNode list" where
  "exTrimNodes = [exNamed ''apple'', exNamed ''a b.txt'']"

definition exEclair :: VisibleNode where
  "exEclair = exNamed (CHR 0xC9 # ''clair'')"

section \<open>Verified properties\<close>

declare visit.simps [simp del] preorder.simps [simp del]
  countFilesWithinFolder.simps [simp del] descendants.simps [simp del]

subsection \<open>The projection is the pre-order walk\<close>

lemma foldl_append_concat:
  "(\<And>c r. c \<in> set cs \<Longrightarrow> f r c = r @ g c) \<Longrightarrow> foldl f r cs = r @ concat (map g cs)"
  by (induction cs arbitrary: r) simp_all

lemma visit_preorder: "visit es n d res = res @ preorder es n d"
proof (induction es n d res rule: visit.induct)
  case (1 es n d res)
  show ?case
  proof (cases "type n = Folder \<and> path n \<in> es")
    case True
    have "foldl (\<lambda>r child. visit es child (d + 1) r)
            (res @ [\<lparr>node = n, depth = d\<rparr>]) (childArray n) =
          (res @ [\<lparr>node = n, depth = d\<rparr>]) @
            concat (map (\<lambda>child. preorder es child (d + 1)) (childArray n))"
      by (rule foldl_append_concat) (rule "1.IH" [OF refl True])
    with True show ?thesis
      by (simp add: visit.simps [of es n d res] preorder.simps [of es n d] Let_def)
  next
    case False
    then show ?thesis
      by (auto simp: visit.simps [of es n d res] preorder.simps [of es n d] Let_def)
  qed
qed

lemma visit_nil: "visit es n d [] = preorder es n d"
  by (simp add: visit_preorder)

text \<open>
  Claim C1. For every snapshot tree and every expansion set, \<open>flattenTree\<close> returns the
  depth-first pre-order sequence of the visible nodes: the root comes first, at depth 0;
  the children of a folder follow it, each at the next depth and with its own visible
  subtree, exactly when the folder's path is in the expansion set; a file contributes
  nothing but itself, whether its path is in the expansion set or not.
\<close>

theorem flattenTree_preorder:
  "flattenTree root es = preorder es root 0
   \<and> flattenTree root es \<noteq> []
   \<and> hd (flattenTree root es) = \<lparr>node = root, depth = 0\<rparr>
   \<and> (type n = Folder \<and> path n \<in> es \<longrightarrow>
        visit es n d res =
          res @ \<lparr>node = n, depth = d\<rparr> #
            concat (map (\<lambda>child. visit es child (d + 1) []) (childArray n)))
   \<and> (type n = Folder \<and> path n \<notin> es \<longrightarrow>
        visit es n d res = res @ [\<lparr>node = n, depth = d\<rparr>])
   \<and> (type n = File \<longrightarrow> visit es n d res = res @ [\<lparr>node = n, depth = d\<rparr>])"
proof -
  have a: "flattenTree root es = preorder es root 0"
    by (simp add: flattenTree_def visit_preorder)
  have b: "flattenTree root es \<noteq> []"
    by (simp add: a preorder.simps [of es root 0])
  have c: "hd (flattenTree root es) = \<lparr>node = root, depth = 0\<rparr>"
    by (simp add: a preorder.simps [of es root 0])
  have d: "type n = Folder \<and> path n \<in> es \<longrightarrow>
        visit es n d res =
          res @ \<lparr>node = n, depth = d\<rparr> #
            concat (map (\<lambda>child. visit es child (d + 1) []) (childArray n))"
    by (simp add: visit_preorder preorder.simps [of es n d])
  have e: "type n = Folder \<and> path n \<notin> es \<longrightarrow>
        visit es n d res = res @ [\<lparr>node = n, depth = d\<rparr>]"
    by (simp add: visit_preorder preorder.simps [of es n d])
  have f: "type n = File \<longrightarrow> visit es n d res = res @ [\<lparr>node = n, depth = d\<rparr>]"
    by (simp add: visit_preorder preorder.simps [of es n d])
  from a b c d e f show ?thesis by blast
qed

theorem flattenTree_preorder_witness:
  "flattenTree exTree {''root''} =
     [\<lparr>node = exTree, depth = 0\<rparr>,
      \<lparr>node = exFile ''a.txt'' ''root/a.txt'', depth = 1\<rparr>,
      \<lparr>node = exSub, depth = 1\<rparr>]
   \<and> preorder {''root''} exTree 0 = flattenTree exTree {''root''}
   \<and> hd (flattenTree exTree {''root''}) = \<lparr>node = exTree, depth = 0\<rparr>
   \<and> type exTree = Folder \<and> path exTree \<in> {''root''}
   \<and> visit {''root''} exTree 0 [] =
       \<lparr>node = exTree, depth = 0\<rparr> #
         concat (map (\<lambda>child. visit {''root''} child 1 []) (childArray exTree))
   \<and> type exSub = Folder \<and> path exSub \<notin> {''root''}
   \<and> visit {''root''} exSub 1 [] = [\<lparr>node = exSub, depth = 1\<rparr>]
   \<and> type (exFile ''root'' ''root'') = File
   \<and> visit {''root''} (exFile ''root'' ''root'') 0 [] =
       [\<lparr>node = exFile ''root'' ''root'', depth = 0\<rparr>]"
proof -
  have v: "flattenTree exTree {''root''} =
     [\<lparr>node = exTree, depth = 0\<rparr>,
      \<lparr>node = exFile ''a.txt'' ''root/a.txt'', depth = 1\<rparr>,
      \<lparr>node = exSub, depth = 1\<rparr>]"
    by (simp add: flattenTree_def exTree_def exSub_def exFile_def visit.simps childArray_def)
  have t1: "type exTree = Folder \<and> path exTree \<in> {''root''}"
    by (simp add: exTree_def)
  have t2: "type exSub = Folder \<and> path exSub \<notin> {''root''}"
    by (simp add: exSub_def)
  have t3: "type (exFile ''root'' ''root'') = File"
    by (simp add: exFile_def)
  from v t1 t2 t3
    flattenTree_preorder [where root = exTree and es = "{''root''}" and n = exTree
      and d = 0 and res = "[]"]
    flattenTree_preorder [where root = exTree and es = "{''root''}" and n = exSub
      and d = 1 and res = "[]"]
    flattenTree_preorder [where root = exTree and es = "{''root''}"
      and n = "exFile ''root'' ''root''" and d = 0 and res = "[]"]
  show ?thesis by simp
qed

subsection \<open>The file count\<close>

lemma foldl_count:
  "(\<And>c t. c \<in> set cs \<Longrightarrow> f t c = t + g c) \<Longrightarrow> foldl f t cs = t + sum_list (map g cs)"
  for f :: "nat \<Rightarrow> 'a \<Rightarrow> nat"
  by (induction cs arbitrary: t) (simp_all add: add.assoc)

lemma count_descendants:
  "countFilesWithinFolder n = length (filter (\<lambda>m. type m = File) (descendants n))"
proof (induction n rule: countFilesWithinFolder.induct)
  case (1 n)
  show ?case
  proof (cases "type n = Folder")
    case False
    then show ?thesis
      by (simp add: countFilesWithinFolder.simps [of n] descendants.simps [of n])
  next
    case True
    let ?g = "\<lambda>c. length (filter (\<lambda>m. type m = File) (c # descendants c))"
    have step: "\<And>c t. c \<in> set (childArray n) \<Longrightarrow>
        (if type c = File then t + 1 else t + countFilesWithinFolder c) = t + ?g c"
    proof -
      fix c t assume c: "c \<in> set (childArray n)"
      show "(if type c = File then t + 1 else t + countFilesWithinFolder c) = t + ?g c"
      proof (cases "type c = File")
        case True
        then show ?thesis by (simp add: descendants.simps [of c])
      next
        case False
        with "1.IH" [of c] True c show ?thesis by simp
      qed
    qed
    have "foldl (\<lambda>total child. if type child = File then total + 1
                  else total + countFilesWithinFolder child) 0 (childArray n) =
          0 + sum_list (map ?g (childArray n))"
      by (rule foldl_count) (rule step)
    also have "\<dots> = length (filter (\<lambda>m. type m = File)
        (concat (map (\<lambda>child. child # descendants child) (childArray n))))"
      by (induction "childArray n") (simp_all add: length_concat comp_def filter_concat)
    finally show ?thesis using True
      by (simp add: countFilesWithinFolder.simps [of n] descendants.simps [of n])
  qed
qed

text \<open>
  Claim C7. For every node, \<open>countFilesWithinFolder\<close> is the number of file-typed
  descendants of the node (folders are not counted); a node that is not a folder, and a
  folder whose \<^verbatim>\<open>children\<close> field is missing, not an array or empty, give 0, and no
  input makes the function fail. A folder with no files and two empty folders inside it
  (side by side or one in the other) gives 0; a folder with three files and a subfolder
  that holds two files gives 5.
\<close>

theorem countFilesWithinFolder_counts_files:
  "countFilesWithinFolder n = length (filter (\<lambda>m. type m = File) (descendants n))
   \<and> (type n \<noteq> Folder \<longrightarrow> countFilesWithinFolder n = 0)
   \<and> (children n = None \<longrightarrow> countFilesWithinFolder n = 0)
   \<and> (children n = Some [] \<longrightarrow> countFilesWithinFolder n = 0)
   \<and> (c1 \<in> {None, Some []} \<and> c2 \<in> {None, Some []} \<longrightarrow>
        countFilesWithinFolder
          (FileTreeNode Folder nm p
             (Some [FileTreeNode Folder nm1 p1 c1, FileTreeNode Folder nm2 p2 c2])) = 0)
   \<and> (c1 \<in> {None, Some []} \<longrightarrow>
        countFilesWithinFolder
          (FileTreeNode Folder nm p
             (Some [FileTreeNode Folder nm1 p1 (Some [FileTreeNode Folder nm2 p2 c1])])) = 0)
   \<and> countFilesWithinFolder
        (FileTreeNode Folder nm p
           (Some [FileTreeNode File nm1 p1 k1, FileTreeNode File nm2 p2 k2,
                  FileTreeNode File nm3 p3 k3,
                  FileTreeNode Folder nm4 p4
                    (Some [FileTreeNode File nm5 p5 k5, FileTreeNode File nm6 p6 k6])])) = 5"
proof -
  have a: "countFilesWithinFolder n = length (filter (\<lambda>m. type m = File) (descendants n))"
    by (rule count_descendants)
  have b: "type n \<noteq> Folder \<longrightarrow> countFilesWithinFolder n = 0"
    by (simp add: countFilesWithinFolder.simps [of n])
  have c: "children n = None \<longrightarrow> countFilesWithinFolder n = 0"
    by (simp add: countFilesWithinFolder.simps [of n] childArray_def)
  have d: "children n = Some [] \<longrightarrow> countFilesWithinFolder n = 0"
    by (simp add: countFilesWithinFolder.simps [of n] childArray_def)
  have e: "c1 \<in> {None, Some []} \<and> c2 \<in> {None, Some []} \<longrightarrow>
        countFilesWithinFolder
          (FileTreeNode Folder nm p
             (Some [FileTreeNode Folder nm1 p1 c1, FileTreeNode Folder nm2 p2 c2])) = 0"
    by (auto simp: countFilesWithinFolder.simps childArray_def)
  have f: "c1 \<in> {None, Some []} \<longrightarrow>
        countFilesWithinFolder
          (FileTreeNode Folder nm p
             (Some [FileTreeNode Folder nm1 p1 (Some [FileTreeNode Folder nm2 p2 c1])])) = 0"
    by (auto simp: countFilesWithinFolder.simps childArray_def)
  have g: "countFilesWithinFolder
        (FileTreeNode Folder nm p
           (Some [FileTreeNode File nm1 p1 k1, FileTreeNode File nm2 p2 k2,
                  FileTreeNode File nm3 p3 k3,
                  FileTreeNode Folder nm4 p4
                    (Some [FileTreeNode File nm5 p5 k5, FileTreeNode File nm6 p6 k6])])) = 5"
    by (simp add: countFilesWithinFolder.simps childArray_def)
  from a b c d e f g show ?thesis by blast
qed

theorem countFilesWithinFolder_counts_files_witness:
  "countFilesWithinFolder exCountTree = 5
   \<and> length (filter (\<lambda>m. type m = File) (descendants exCountTree)) = 5
   \<and> type (exFile ''a.ts'' ''root/src/a.ts'') = File
   \<and> countFilesWithinFolder (exFile ''a.ts'' ''root/src/a.ts'') = 0
   \<and> countFilesWithinFolder (FileTreeNode Folder ''e'' ''root/e'' None) = 0
   \<and> countFilesWithinFolder (FileTreeNode Folder ''e'' ''root/e'' (Some [])) = 0
   \<and> countFilesWithinFolder
        (FileTreeNode Folder ''e'' ''root/e''
           (Some [FileTreeNode Folder ''f'' ''root/e/f'' None,
                  FileTreeNode Folder ''g'' ''root/e/g'' (Some [])])) = 0
   \<and> countFilesWithinFolder
        (FileTreeNode Folder ''e'' ''root/e''
           (Some [FileTreeNode Folder ''f'' ''root/e/f''
                    (Some [FileTreeNode Folder ''g'' ''root/e/f/g'' None])])) = 0"
proof -
  have v: "countFilesWithinFolder exCountTree = 5"
    by code_simp
  note t = countFilesWithinFolder_counts_files
    [where ?c1.0 = None and ?c2.0 = "Some []" and nm = "''e''" and p = "''root/e''"
       and ?nm1.0 = "''f''" and ?p1.0 = "''root/e/f''" and ?nm2.0 = "''g''"
       and ?k1.0 = None and ?k2.0 = None and ?k3.0 = None and ?k5.0 = None and ?k6.0 = None
       and ?nm3.0 = "''x''" and ?nm4.0 = "''x''" and ?nm5.0 = "''x''" and ?nm6.0 = "''x''"
       and ?p3.0 = "''x''" and ?p4.0 = "''x''" and ?p5.0 = "''x''" and ?p6.0 = "''x''"]
  have 1: "length (filter (\<lambda>m. type m = File) (descendants exCountTree)) = 5"
    using t [where n = exCountTree and ?p2.0 = "''root/e/g''", THEN conjunct1] v by simp
  have 2: "countFilesWithinFolder (exFile ''a.ts'' ''root/src/a.ts'') = 0"
    using t [where n = "exFile ''a.ts'' ''root/src/a.ts''" and ?p2.0 = "''root/e/g''", THEN conjunct2]
    by (simp add: exFile_def)
  have 3: "countFilesWithinFolder (FileTreeNode Folder ''e'' ''root/e'' None) = 0"
    using t [where n = "FileTreeNode Folder ''e'' ''root/e'' None" and ?p2.0 = "''root/e/g''", THEN conjunct2]
    by simp
  have 4: "countFilesWithinFolder (FileTreeNode Folder ''e'' ''root/e'' (Some [])) = 0"
    using t [where n = "FileTreeNode Folder ''e'' ''root/e'' (Some [])" and ?p2.0 = "''root/e/g''", THEN conjunct2]
    by simp
  have 5: "countFilesWithinFolder
        (FileTreeNode Folder ''e'' ''root/e''
           (Some [FileTreeNode Folder ''f'' ''root/e/f'' None,
                  FileTreeNode Folder ''g'' ''root/e/g'' (Some [])])) = 0"
    using t [where n = exCountTree and ?p2.0 = "''root/e/g''", THEN conjunct2] by simp
  have 6: "countFilesWithinFolder
        (FileTreeNode Folder ''e'' ''root/e''
           (Some [FileTreeNode Folder ''f'' ''root/e/f''
                    (Some [FileTreeNode Folder ''g'' ''root/e/f/g'' None])])) = 0"
    using t [where n = exCountTree and ?p2.0 = "''root/e/f/g''", THEN conjunct2] by simp
  from v 1 2 3 4 5 6 show ?thesis by (simp add: exFile_def)
qed

subsection \<open>Moving the selection up and down\<close>

lemma at_nth: "i < length xs \<Longrightarrow> at xs (int i) = Inr (xs ! i)"
  by (simp add: at_def)

lemma at_hd: "xs \<noteq> [] \<Longrightarrow> at xs 0 = Inr (hd xs)"
  by (cases xs) (simp_all add: at_def)

lemma at_last: "xs \<noteq> [] \<Longrightarrow> at xs (int (length xs) - 1) = Inr (last xs)"
  by (cases xs rule: rev_cases) (simp_all add: at_def)

lemma findIndexFrom_none: "(\<And>x. x \<in> set xs \<Longrightarrow> \<not> P x) \<Longrightarrow> findIndexFrom P k xs = -1"
  by (induction xs arbitrary: k) simp_all

lemma findIndexFrom_first:
  "i < length xs \<Longrightarrow> P (xs ! i) \<Longrightarrow> (\<And>j. j < i \<Longrightarrow> \<not> P (xs ! j)) \<Longrightarrow>
     findIndexFrom P k xs = k + int i"
proof (induction xs arbitrary: i k)
  case Nil
  then show ?case by simp
next
  case (Cons x xs)
  show ?case
  proof (cases i)
    case 0
    with Cons.prems show ?thesis by simp
  next
    case (Suc m)
    with Cons.prems(3) [of 0] have nx: "\<not> P x" by simp
    have "findIndexFrom P (k + 1) xs = (k + 1) + int m"
    proof (rule Cons.IH)
      show "m < length xs" using Cons.prems(1) Suc by simp
      show "P (xs ! m)" using Cons.prems(2) Suc by simp
      show "\<And>j. j < m \<Longrightarrow> \<not> P (xs ! j)" using Cons.prems(3) [of "Suc _"] Suc by simp
    qed
    with nx Suc show ?thesis by simp
  qed
qed

lemma findIndex_none: "(\<And>x. x \<in> set xs \<Longrightarrow> \<not> P x) \<Longrightarrow> findIndex P xs = -1"
  by (simp add: findIndex_def findIndexFrom_none)

lemma findIndex_first:
  "i < length xs \<Longrightarrow> P (xs ! i) \<Longrightarrow> (\<And>j. j < i \<Longrightarrow> \<not> P (xs ! j)) \<Longrightarrow>
     findIndex P xs = int i"
  using findIndexFrom_first [of i xs P 0] by (simp add: findIndex_def)

lemma moveSelection_none:
  assumes "vis \<noteq> []" and "\<not> truthy sel \<or> (\<forall>v \<in> set vis. Some (path (node v)) \<noteq> sel)"
  shows "moveSelection 1 vis sel = Inr (Some (path (node (hd vis))))"
    and "moveSelection (-1) vis sel = Inr (Some (path (node (last vis))))"
proof -
  have ci: "(if truthy sel then findIndex (\<lambda>item. Some (path (node item)) = sel) vis else -1) = -1"
    using assms(2) by (auto intro: findIndex_none)
  show "moveSelection 1 vis sel = Inr (Some (path (node (hd vis))))"
    unfolding moveSelection_def ci using assms(1) by (simp add: at_hd)
  show "moveSelection (-1) vis sel = Inr (Some (path (node (last vis))))"
    unfolding moveSelection_def ci using assms(1) by (simp add: at_last)
qed

lemma moveSelection_found:
  assumes i: "i < length vis" and p: "path (node (vis ! i)) = p" and ne: "p \<noteq> []"
    and first: "\<And>j. j < i \<Longrightarrow> path (node (vis ! j)) \<noteq> p"
  shows "moveSelection delta vis (Some p) =
           (if min (max (int i + delta) 0) (int (length vis) - 1) \<noteq> int i
            then (case at vis (min (max (int i + delta) 0) (int (length vis) - 1)) of
                    Inl e \<Rightarrow> Inl e
                  | Inr item \<Rightarrow> Inr (Some (path (node item))))
            else Inr (Some p))"
proof -
  have fi: "findIndex (\<lambda>item. Some (path (node item)) = Some p) vis = int i"
    using i p first by (intro findIndex_first) simp_all
  have ci: "(if truthy (Some p) then findIndex (\<lambda>item. Some (path (node item)) = Some p) vis
             else -1) = int i"
    using ne fi by (simp add: truthy_def)
  have len: "length vis \<noteq> 0" using i by auto
  show ?thesis
    unfolding moveSelection_def ci Let_def using len by simp
qed

lemma moveSelection_down:
  assumes i: "i < length vis" and p: "path (node (vis ! i)) = p" and ne: "p \<noteq> []"
    and first: "\<And>j. j < i \<Longrightarrow> path (node (vis ! j)) \<noteq> p"
  shows "moveSelection 1 vis (Some p) =
           Inr (Some (path (node (vis ! min (i + 1) (length vis - 1)))))"
proof (cases "i + 1 < length vis")
  case True
  then have n: "min (max (int i + 1) 0) (int (length vis) - 1) = int (Suc i)" by simp
  have a: "at vis (int (Suc i)) = Inr (vis ! Suc i)" using True by (intro at_nth) simp
  have m: "min (i + 1) (length vis - 1) = Suc i" using True by simp
  have d: "int (Suc i) \<noteq> int i" by simp
  show ?thesis
    by (simp only: moveSelection_found [OF i p ne first] n a m d if_True sum.case
        not_False_eq_True)
next
  case False
  with i have e: "length vis = Suc i" by simp
  have n: "min (max (int i + 1) 0) (int (length vis) - 1) = int i" unfolding e by simp
  have m: "min (i + 1) (length vis - 1) = i" unfolding e by simp
  show ?thesis
    by (simp only: moveSelection_found [OF i p ne first] n m p simp_thms if_False)
qed

lemma moveSelection_up:
  assumes i: "i < length vis" and p: "path (node (vis ! i)) = p" and ne: "p \<noteq> []"
    and first: "\<And>j. j < i \<Longrightarrow> path (node (vis ! j)) \<noteq> p"
  shows "moveSelection (-1) vis (Some p) = Inr (Some (path (node (vis ! (i - 1)))))"
proof (cases i)
  case 0
  have n: "min (max (int i + - 1) 0) (int (length vis) - 1) = int i" using i 0 by simp
  have s: "i - 1 = i" using 0 by simp
  show ?thesis
    by (simp only: moveSelection_found [OF i p ne first] n s p simp_thms if_False)
next
  case (Suc m)
  have n: "min (max (int i + - 1) 0) (int (length vis) - 1) = int m" using i Suc by simp
  have a: "at vis (int m) = Inr (vis ! m)" using i Suc by (intro at_nth) simp
  have d: "int m \<noteq> int i" using Suc by simp
  have s: "i - 1 = m" using Suc by simp
  show ?thesis
    by (simp only: moveSelection_found [OF i p ne first] n a s d if_True sum.case
        not_False_eq_True)
qed

lemma exVisible_eval:
  "exVisible =
     [\<lparr>node = exTree, depth = 0\<rparr>,
      \<lparr>node = exFile ''a.txt'' ''root/a.txt'', depth = 1\<rparr>,
      \<lparr>node = exSub, depth = 1\<rparr>]"
  by (simp add: exVisible_def flattenTree_def exTree_def exSub_def exFile_def visit.simps
      childArray_def)

lemma exVisible_paths:
  "map (\<lambda>v. path (node v)) exVisible = [''root'', ''root/a.txt'', ''root/b'']"
  by (simp add: exVisible_eval exTree_def exSub_def exFile_def)

text \<open>
  Claim C3. On a visible sequence that is not empty, Move-down with no selection selects
  the first visible node and Move-up with no selection selects the last. When the node at
  index \<open>i\<close> is selected (its path is the selection, and \<open>i\<close> is the first index with
  that path), Move-down selects the node at index \<open>i + 1\<close> and Move-up the node at
  index \<open>i - 1\<close>, clamped to the bounds of the sequence: Move-down on the last node
  and Move-up on the first leave the selection as it is. The keys ArrowDown and ArrowUp
  are these two moves.
\<close>

theorem moveSelection_clamped:
  "vis \<noteq> [] \<Longrightarrow>
     moveSelection 1 vis None = Inr (Some (path (node (hd vis))))
   \<and> moveSelection (-1) vis None = Inr (Some (path (node (last vis))))
   \<and> (i < length vis \<and> path (node (vis ! i)) = p \<and> p \<noteq> []
        \<and> (\<forall>j<i. path (node (vis ! j)) \<noteq> p) \<longrightarrow>
          moveSelection 1 vis (Some p) =
            Inr (Some (path (node (vis ! min (i + 1) (length vis - 1)))))
        \<and> moveSelection (-1) vis (Some p) = Inr (Some (path (node (vis ! (i - 1)))))
        \<and> (i + 1 = length vis \<longrightarrow> moveSelection 1 vis (Some p) = Inr (Some p))
        \<and> (i = 0 \<longrightarrow> moveSelection (-1) vis (Some p) = Inr (Some p)))
   \<and> handleTreeKeyDown \<lparr>key = ''ArrowDown'', defaultPrevented = False\<rparr> now s =
       (case moveSelection 1 (visibleNodes s) (selectedPath s) of
          Inl e \<Rightarrow> Inl e
        | Inr sel \<Rightarrow> Inr (s\<lparr>selectedPath := sel\<rparr>))
   \<and> handleTreeKeyDown \<lparr>key = ''ArrowUp'', defaultPrevented = False\<rparr> now s =
       (case moveSelection (-1) (visibleNodes s) (selectedPath s) of
          Inl e \<Rightarrow> Inl e
        | Inr sel \<Rightarrow> Inr (s\<lparr>selectedPath := sel\<rparr>))"
proof -
  assume ne: "vis \<noteq> []"
  have nt: "\<not> truthy None \<or> (\<forall>v \<in> set vis. Some (path (node v)) \<noteq> None)"
    by (simp add: truthy_def)
  have a: "moveSelection 1 vis None = Inr (Some (path (node (hd vis))))"
    by (rule moveSelection_none(1) [OF ne nt])
  have b: "moveSelection (-1) vis None = Inr (Some (path (node (last vis))))"
    by (rule moveSelection_none(2) [OF ne nt])
  have c: "i < length vis \<and> path (node (vis ! i)) = p \<and> p \<noteq> []
        \<and> (\<forall>j<i. path (node (vis ! j)) \<noteq> p) \<longrightarrow>
          moveSelection 1 vis (Some p) =
            Inr (Some (path (node (vis ! min (i + 1) (length vis - 1)))))
        \<and> moveSelection (-1) vis (Some p) = Inr (Some (path (node (vis ! (i - 1)))))
        \<and> (i + 1 = length vis \<longrightarrow> moveSelection 1 vis (Some p) = Inr (Some p))
        \<and> (i = 0 \<longrightarrow> moveSelection (-1) vis (Some p) = Inr (Some p))"
  proof (intro impI, elim conjE)
    assume i: "i < length vis" and p: "path (node (vis ! i)) = p" and pne: "p \<noteq> []"
      and first: "\<forall>j<i. path (node (vis ! j)) \<noteq> p"
    from first have first': "\<And>j. j < i \<Longrightarrow> path (node (vis ! j)) \<noteq> p" by blast
    have down: "moveSelection 1 vis (Some p) =
        Inr (Some (path (node (vis ! min (i + 1) (length vis - 1)))))"
      by (rule moveSelection_down [OF i p pne first'])
    have up: "moveSelection (-1) vis (Some p) = Inr (Some (path (node (vis ! (i - 1)))))"
      by (rule moveSelection_up [OF i p pne first'])
    have "i + 1 = length vis \<longrightarrow> moveSelection 1 vis (Some p) = Inr (Some p)"
    proof
      assume "i + 1 = length vis"
      then have m: "min (i + 1) (length vis - 1) = i" by simp
      show "moveSelection 1 vis (Some p) = Inr (Some p)" by (simp only: down m p)
    qed
    moreover have "i = 0 \<longrightarrow> moveSelection (-1) vis (Some p) = Inr (Some p)"
    proof
      assume "i = 0"
      then have m: "i - 1 = i" by simp
      show "moveSelection (-1) vis (Some p) = Inr (Some p)" by (simp only: up m p)
    qed
    ultimately show "moveSelection 1 vis (Some p) =
            Inr (Some (path (node (vis ! min (i + 1) (length vis - 1)))))
        \<and> moveSelection (-1) vis (Some p) = Inr (Some (path (node (vis ! (i - 1)))))
        \<and> (i + 1 = length vis \<longrightarrow> moveSelection 1 vis (Some p) = Inr (Some p))
        \<and> (i = 0 \<longrightarrow> moveSelection (-1) vis (Some p) = Inr (Some p))"
      using down up by blast
  qed
  have d: "handleTreeKeyDown \<lparr>key = ''ArrowDown'', defaultPrevented = False\<rparr> now s =
       (case moveSelection 1 (visibleNodes s) (selectedPath s) of
          Inl e \<Rightarrow> Inl e
        | Inr sel \<Rightarrow> Inr (s\<lparr>selectedPath := sel\<rparr>))"
    by (simp add: handleTreeKeyDown_def)
  have e: "handleTreeKeyDown \<lparr>key = ''ArrowUp'', defaultPrevented = False\<rparr> now s =
       (case moveSelection (-1) (visibleNodes s) (selectedPath s) of
          Inl e \<Rightarrow> Inl e
        | Inr sel \<Rightarrow> Inr (s\<lparr>selectedPath := sel\<rparr>))"
    by (simp add: handleTreeKeyDown_def)
  from a b c d e show ?thesis by blast
qed

theorem moveSelection_clamped_witness:
  "exVisible \<noteq> []
   \<and> map (\<lambda>v. path (node v)) exVisible = [''root'', ''root/a.txt'', ''root/b'']
   \<and> moveSelection 1 exVisible None = Inr (Some ''root'')
   \<and> moveSelection (-1) exVisible None = Inr (Some ''root/b'')
   \<and> moveSelection 1 exVisible (Some ''root/a.txt'') = Inr (Some ''root/b'')
   \<and> moveSelection (-1) exVisible (Some ''root/a.txt'') = Inr (Some ''root'')
   \<and> moveSelection 1 exVisible (Some ''root/b'') = Inr (Some ''root/b'')
   \<and> moveSelection (-1) exVisible (Some ''root'') = Inr (Some ''root'')"
proof -
  have ne: "exVisible \<noteq> []" by (simp add: exVisible_eval)
  have h1: "1 < length exVisible \<and> path (node (exVisible ! 1)) = ''root/a.txt''
      \<and> ''root/a.txt'' \<noteq> [] \<and> (\<forall>j<1. path (node (exVisible ! j)) \<noteq> ''root/a.txt'')"
    by (simp add: exVisible_eval exTree_def exSub_def exFile_def)
  have h2: "2 < length exVisible \<and> path (node (exVisible ! 2)) = ''root/b''
      \<and> ''root/b'' \<noteq> [] \<and> (\<forall>j<2. path (node (exVisible ! j)) \<noteq> ''root/b'')"
    by (simp add: exVisible_eval exTree_def exSub_def exFile_def numeral_2_eq_2 less_Suc_eq)
  have h0: "0 < length exVisible \<and> path (node (exVisible ! 0)) = ''root''
      \<and> ''root'' \<noteq> [] \<and> (\<forall>j<0. path (node (exVisible ! j)) \<noteq> ''root'')"
    by (simp add: exVisible_eval exTree_def exSub_def exFile_def)
  note t = moveSelection_clamped [OF ne, where now = 0 and s = "\<lparr>tree = None, expanded = {},
      selectedPath = None, typeaheadState = \<lparr>buffer = [], lastInputTime = 0\<rparr>\<rparr>"]
  from t [where i = 0 and p = "''root''"] h0
  have r0: "moveSelection 1 exVisible None = Inr (Some ''root'')
      \<and> moveSelection (-1) exVisible None = Inr (Some ''root/b'')
      \<and> moveSelection (-1) exVisible (Some ''root'') = Inr (Some ''root'')"
    by (simp add: exVisible_eval exTree_def exSub_def exFile_def)
  from t [where i = 1 and p = "''root/a.txt''"] h1
  have r1: "moveSelection 1 exVisible (Some ''root/a.txt'') = Inr (Some ''root/b'')
      \<and> moveSelection (-1) exVisible (Some ''root/a.txt'') = Inr (Some ''root'')"
    by (simp add: exVisible_eval exTree_def exSub_def exFile_def)
  from t [where i = 2 and p = "''root/b''"] h2
  have r2: "moveSelection 1 exVisible (Some ''root/b'') = Inr (Some ''root/b'')"
    by (simp add: exVisible_eval exTree_def exSub_def exFile_def)
  from ne r0 r1 r2 exVisible_paths show ?thesis by simp
qed

text \<open>
  Claim C10. On a visible sequence that is not empty, when the selected path is not null
  and is the path of no visible node (a node hidden in a collapsed folder, say), Move-down
  selects the first visible node and Move-up the last, exactly as with no selection.
\<close>

theorem moveSelection_hidden_selection:
  "vis \<noteq> [] \<Longrightarrow> p \<notin> set (map (\<lambda>v. path (node v)) vis) \<Longrightarrow>
     moveSelection 1 vis (Some p) = Inr (Some (path (node (hd vis))))
   \<and> moveSelection (-1) vis (Some p) = Inr (Some (path (node (last vis))))
   \<and> moveSelection 1 vis (Some p) = moveSelection 1 vis None
   \<and> moveSelection (-1) vis (Some p) = moveSelection (-1) vis None"
proof -
  assume ne: "vis \<noteq> []" and hidden: "p \<notin> set (map (\<lambda>v. path (node v)) vis)"
  have np: "\<not> truthy (Some p) \<or> (\<forall>v \<in> set vis. Some (path (node v)) \<noteq> Some p)"
    using hidden by auto
  have nt: "\<not> truthy None \<or> (\<forall>v \<in> set vis. Some (path (node v)) \<noteq> None)"
    by (simp add: truthy_def)
  show ?thesis
    by (simp only: moveSelection_none [OF ne np] moveSelection_none [OF ne nt] simp_thms)
qed

theorem moveSelection_hidden_selection_witness:
  "exVisible \<noteq> []
   \<and> map (\<lambda>v. path (node v)) exVisible = [''root'', ''root/a.txt'', ''root/b'']
   \<and> findNodeByPath (Some exTree) (Some ''root/b/c.txt'') = Some (exFile ''c.txt'' ''root/b/c.txt'')
   \<and> moveSelection 1 exVisible (Some ''root/b/c.txt'') = Inr (Some ''root'')
   \<and> moveSelection (-1) exVisible (Some ''root/b/c.txt'') = Inr (Some ''root/b'')"
proof -
  have ne: "exVisible \<noteq> []" by (simp add: exVisible_eval)
  have hid: "''root/b/c.txt'' \<notin> set (map (\<lambda>v. path (node v)) exVisible)"
    by (simp add: exVisible_paths)
  have f: "findNodeByPath (Some exTree) (Some ''root/b/c.txt'') = Some (exFile ''c.txt'' ''root/b/c.txt'')"
    by (simp add: findNodeByPath_def truthy_def exTree_def exSub_def exFile_def childArray_def)
  from moveSelection_hidden_selection [OF ne hid] ne f exVisible_paths
  show ?thesis by (simp add: exVisible_eval exTree_def exSub_def exFile_def)
qed

subsection \<open>The two tree searches\<close>

declare findNodeLoop.simps [simp del] findParentLoop.simps [simp del]
  subtreeOrder.simps [simp del] typeaheadLoop.simps [simp del]

lemma findNodeLoop_Nil: "findNodeLoop p [] = None"
  by (simp add: findNodeLoop.simps [of p "[]"])

lemma findNodeLoop_snoc:
  "findNodeLoop p (stack1 @ [current]) =
     (if path current = p then Some current
      else if type current = Folder \<and> children current \<noteq> None
      then findNodeLoop p (stack1 @ childArray current)
      else findNodeLoop p stack1)"
  by (simp add: findNodeLoop.simps [of p "stack1 @ [current]"])

lemma findParentLoop_Nil: "findParentLoop p [] = None"
  by (simp add: findParentLoop.simps [of p "[]"])

lemma findParentLoop_snoc:
  "findParentLoop p (stack1 @ [current]) =
     (if path (fst current) = p then Some (snd current)
      else if type (fst current) = Folder \<and> children (fst current) \<noteq> None
      then findParentLoop p
             (stack1 @ map (\<lambda>child. (child, path (fst current))) (childArray (fst current)))
      else findParentLoop p stack1)"
  by (simp add: findParentLoop.simps [of p "stack1 @ [current]"])

lemma subtreeOrder_leaf:
  "\<not> (type n = Folder \<and> children n \<noteq> None) \<Longrightarrow> subtreeOrder n = [n]"
  by (auto simp: subtreeOrder.simps [of n] childArray_def)

lemma subtreeOrder_folder:
  "type n = Folder \<Longrightarrow> subtreeOrder n = n # concat (map subtreeOrder (rev (childArray n)))"
  by (simp add: subtreeOrder.simps [of n])

lemma findNodeLoop_find:
  "findNodeLoop p stack = find (\<lambda>n. path n = p) (concat (map subtreeOrder (rev stack)))"
proof (induction p stack rule: findNodeLoop.induct)
  case (1 p stack)
  show ?case
  proof (cases stack rule: rev_cases)
    case Nil
    then show ?thesis by (simp add: findNodeLoop_Nil)
  next
    case (snoc stack1 current)
    have len: "0 < length stack" using snoc by simp
    have cur: "current = last stack" and st1: "stack1 = butlast stack"
      using snoc by simp_all
    show ?thesis
    proof (cases "path current = p")
      case True
      then show ?thesis
        by (simp add: snoc findNodeLoop_snoc subtreeOrder.simps [of current])
    next
      case np: False
      show ?thesis
      proof (cases "type current = Folder \<and> children current \<noteq> None")
        case True
        have "findNodeLoop p (stack1 @ childArray current) =
            find (\<lambda>n. path n = p)
              (concat (map subtreeOrder (rev (stack1 @ childArray current))))"
          using "1.IH"(1) [OF len cur st1 np True] .
        with np True show ?thesis
          by (simp add: snoc findNodeLoop_snoc subtreeOrder_folder)
      next
        case nf: False
        have "findNodeLoop p stack1 =
            find (\<lambda>n. path n = p) (concat (map subtreeOrder (rev stack1)))"
          using "1.IH"(2) [OF len cur st1 np nf] .
        moreover have "subtreeOrder current = [current]"
          using nf by (rule subtreeOrder_leaf)
        moreover have "findNodeLoop p (stack1 @ [current]) = findNodeLoop p stack1"
          using np nf by (auto simp: findNodeLoop_snoc)
        ultimately show ?thesis
          using np by (simp add: snoc)
      qed
    qed
  qed
qed

lemma findNodeByPath_find:
  "findNodeByPath (Some r) (Some p) =
     (if p = [] then None else find (\<lambda>n. path n = p) (searchOrder r))"
  by (simp add: findNodeByPath_def truthy_def findNodeLoop_find searchOrder_def)

lemma findNodeByPath_path: "findNodeByPath t sel = Some n \<Longrightarrow> sel = Some (path n)"
proof (cases t)
  case None
  assume "findNodeByPath t sel = Some n"
  with None show ?thesis by (simp add: findNodeByPath_def)
next
  case (Some r)
  assume f: "findNodeByPath t sel = Some n"
  show ?thesis
  proof (cases sel)
    case None
    with f Some show ?thesis by (simp add: findNodeByPath_def truthy_def)
  next
    case sp: (Some p)
    with f Some have "find (\<lambda>n. path n = p) (searchOrder r) = Some n"
      by (simp add: findNodeByPath_find split: if_splits)
    then have "path n = p" by (auto simp: find_Some_iff)
    with sp show ?thesis by simp
  qed
qed

lemma findNodeByPath_resolves:
  "(findNodeByPath (Some r) (Some p) \<noteq> None) =
     (p \<noteq> [] \<and> p \<in> set (map path (searchOrder r)))"
proof -
  have "(find (\<lambda>n. path n = p) (searchOrder r) \<noteq> None) =
      (\<exists>x \<in> set (searchOrder r). path x = p)"
    by (simp add: find_None_iff Bex_def)
  also have "\<dots> = (p \<in> set (map path (searchOrder r)))"
    by auto
  finally show ?thesis
    by (simp add: findNodeByPath_find)
qed

text \<open>
  Every node of the search order that is a folder, and the root of whatever type, has its
  children in the search order.
\<close>

lemma subtreeOrder_self: "n \<in> set (subtreeOrder n)"
  by (simp add: subtreeOrder.simps [of n])

lemma subtreeOrder_closed:
  "x \<in> set (subtreeOrder n) \<Longrightarrow> type x = Folder \<Longrightarrow> c \<in> set (childArray x) \<Longrightarrow>
     c \<in> set (subtreeOrder n)"
proof (induction n rule: subtreeOrder.induct)
  case (1 n)
  show ?case
  proof (cases "x = n")
    case True
    with "1.prems" have "c \<in> set (childArray n)" and "type n = Folder" by simp_all
    then show ?thesis
      using subtreeOrder_self [of c] by (auto simp: subtreeOrder_folder)
  next
    case False
    with "1.prems"(1) have f: "type n = Folder"
      and "x \<in> set (concat (map subtreeOrder (rev (childArray n))))"
      by (auto simp: subtreeOrder.simps [of n] split: if_splits)
    then obtain m where m: "m \<in> set (childArray n)" and xm: "x \<in> set (subtreeOrder m)"
      by auto
    have "c \<in> set (subtreeOrder m)"
      using "1.IH" [OF f _ xm "1.prems"(2,3)] m by simp
    with m f show ?thesis by (auto simp: subtreeOrder_folder)
  qed
qed

lemma searchOrder_root: "r \<in> set (searchOrder r)"
  by (simp add: searchOrder_def)

lemma searchOrder_closed:
  assumes "par \<in> set (searchOrder r)" and "par = r \<or> type par = Folder"
    and "c \<in> set (childArray par)"
  shows "c \<in> set (searchOrder r)"
proof (cases "par = r")
  case True
  with assms(3) show ?thesis
    using subtreeOrder_self [of c] by (auto simp: searchOrder_def)
next
  case False
  with assms(1) obtain m where m: "m \<in> set (childArray r)" and pm: "par \<in> set (subtreeOrder m)"
    by (auto simp: searchOrder_def)
  from False assms(2) have "type par = Folder" by simp
  from subtreeOrder_closed [OF pm this assms(3)] m show ?thesis
    by (auto simp: searchOrder_def)
qed

text \<open>
  The two loops run in step: on stacks that hold the same nodes, \<open>findParentLoop\<close> finds
  the node that \<open>findNodeLoop\<close> finds and returns the path it carries, which is the path
  of the node's parent.
\<close>

lemma findParentLoop_lockstep:
  assumes "\<And>c pp. (c, pp) \<in> set pstack \<Longrightarrow>
             \<exists>par \<in> set (searchOrder r).
               (par = r \<or> type par = Folder) \<and> c \<in> set (childArray par) \<and> path par = pp"
    and "findNodeLoop q (map fst pstack) = Some n"
  shows "\<exists>par \<in> set (searchOrder r).
           (par = r \<or> type par = Folder) \<and> n \<in> set (childArray par)
           \<and> findParentLoop q pstack = Some (path par)"
  using assms
proof (induction q pstack rule: findParentLoop.induct)
  case (1 q pstack)
  note inv = "1.prems"(1) and found = "1.prems"(2)
  show ?case
  proof (cases pstack rule: rev_cases)
    case Nil
    with found show ?thesis by (simp add: findNodeLoop_Nil)
  next
    case (snoc stack1 current)
    obtain c pp where current: "current = (c, pp)" by (cases current)
    have len: "0 < length pstack" using snoc by simp
    have cur: "current = last pstack" and st1: "stack1 = butlast pstack"
      using snoc by simp_all
    have mem: "(c, pp) \<in> set pstack" using snoc current by simp
    from inv [OF mem] obtain par where par: "par \<in> set (searchOrder r)"
      "par = r \<or> type par = Folder" "c \<in> set (childArray par)" "path par = pp"
      by blast
    have cin: "c \<in> set (searchOrder r)"
      by (rule searchOrder_closed [OF par(1,2,3)])
    have fn: "findNodeLoop q (map fst stack1 @ [c]) = Some n"
      using found snoc current by simp
    show ?thesis
    proof (cases "path c = q")
      case True
      with fn have "n = c" by (simp add: findNodeLoop_snoc)
      moreover have "findParentLoop q pstack = Some pp"
        using True by (simp add: snoc current findParentLoop_snoc)
      ultimately show ?thesis using par by blast
    next
      case np: False
      show ?thesis
      proof (cases "type c = Folder \<and> children c \<noteq> None")
        case True
        let ?new = "stack1 @ map (\<lambda>child. (child, path c)) (childArray c)"
        have fl: "findParentLoop q pstack = findParentLoop q ?new"
          using np True by (simp add: snoc current findParentLoop_snoc)
        have fn': "findNodeLoop q (map fst ?new) = Some n"
          using fn np True by (simp add: findNodeLoop_snoc comp_def)
        have inv': "\<And>c' pp'. (c', pp') \<in> set ?new \<Longrightarrow>
             \<exists>par \<in> set (searchOrder r).
               (par = r \<or> type par = Folder) \<and> c' \<in> set (childArray par) \<and> path par = pp'"
        proof -
          fix c' pp' assume m: "(c', pp') \<in> set ?new"
          show "\<exists>par \<in> set (searchOrder r).
               (par = r \<or> type par = Folder) \<and> c' \<in> set (childArray par) \<and> path par = pp'"
          proof (cases "(c', pp') \<in> set stack1")
            case True
            then have "(c', pp') \<in> set pstack" using snoc by simp
            then show ?thesis by (rule inv)
          next
            case False
            with m have "c' \<in> set (childArray c)" and "pp' = path c" by auto
            with cin True show ?thesis by blast
          qed
        qed
        have np': "path (fst current) \<noteq> q" using np current by simp
        have tr': "type (fst current) = Folder \<and> children (fst current) \<noteq> None"
          using True current by simp
        have new: "stack1 @ map (\<lambda>child. (child, path (fst current))) (childArray (fst current))
            = ?new"
          using current by simp
        have "\<exists>par \<in> set (searchOrder r).
           (par = r \<or> type par = Folder) \<and> n \<in> set (childArray par)
           \<and> findParentLoop q ?new = Some (path par)"
          using "1.IH"(1) [OF len cur st1 np' tr'] inv' fn' unfolding new by blast
        with fl show ?thesis by simp
      next
        case nf: False
        have fl: "findParentLoop q pstack = findParentLoop q stack1"
          using np nf by (auto simp: snoc current findParentLoop_snoc)
        have fn': "findNodeLoop q (map fst stack1) = Some n"
          using fn np nf by (auto simp: findNodeLoop_snoc)
        have np': "path (fst current) \<noteq> q" using np current by simp
        have nf': "\<not> (type (fst current) = Folder \<and> children (fst current) \<noteq> None)"
          using nf current by simp
        have inv': "\<And>c' pp'. (c', pp') \<in> set stack1 \<Longrightarrow>
             \<exists>par \<in> set (searchOrder r).
               (par = r \<or> type par = Folder) \<and> c' \<in> set (childArray par) \<and> path par = pp'"
        proof -
          fix c' pp'
          assume "(c', pp') \<in> set stack1"
          then have "(c', pp') \<in> set pstack" using snoc by simp
          then show "\<exists>par \<in> set (searchOrder r).
               (par = r \<or> type par = Folder) \<and> c' \<in> set (childArray par) \<and> path par = pp'"
            by (rule inv)
        qed
        have "\<exists>par \<in> set (searchOrder r).
           (par = r \<or> type par = Folder) \<and> n \<in> set (childArray par)
           \<and> findParentLoop q stack1 = Some (path par)"
          using "1.IH"(2) [OF len cur st1 np' nf'] inv' fn' by blast
        with fl show ?thesis by simp
      qed
    qed
  qed
qed

lemma findParentPath_parent:
  assumes sel: "findNodeByPath (Some r) (Some p) = Some n" and nr: "path r \<noteq> p"
  shows "\<exists>par \<in> set (searchOrder r).
           n \<in> set (childArray par) \<and> findParentPath (Some r) (Some p) = Some (path par)"
proof -
  let ?pstack = "map (\<lambda>child. (child, path r)) (childArray r)"
  from sel have pne: "p \<noteq> []" by (auto simp: findNodeByPath_def truthy_def split: if_splits)
  from sel nr pne have fn: "findNodeLoop p (map fst ?pstack) = Some n"
    by (simp add: findNodeByPath_def truthy_def comp_def)
  have inv: "\<And>c pp. (c, pp) \<in> set ?pstack \<Longrightarrow>
             \<exists>par \<in> set (searchOrder r).
               (par = r \<or> type par = Folder) \<and> c \<in> set (childArray par) \<and> path par = pp"
    using searchOrder_root [of r] by auto
  from findParentLoop_lockstep [OF inv fn]
  obtain par where "par \<in> set (searchOrder r)" "n \<in> set (childArray par)"
    "findParentLoop p ?pstack = Some (path par)" by blast
  moreover have "findParentPath (Some r) (Some p) = findParentLoop p ?pstack"
    using nr pne by (simp add: findParentPath_def truthy_def)
  ultimately show ?thesis by auto
qed

subsection \<open>Expand and collapse\<close>

lemma visibleNodes_Some:
  "tree s = Some r \<Longrightarrow>
     visibleNodes s \<noteq> [] \<and> hd (visibleNodes s) = \<lparr>node = r, depth = 0\<rparr>
     \<and> at (visibleNodes s) 0 = Inr \<lparr>node = r, depth = 0\<rparr>"
  by (simp add: visibleNodes_def flattenTree_def visit_preorder preorder.simps [of _ r 0]
      at_def)

lemma selectedNode_falsy: "\<not> truthy (selectedPath s) \<Longrightarrow> selectedNode s = None"
  by (simp add: selectedNode_def findNodeByPath_def split: option.splits)

text \<open>
  Claim C4. The Expand transition (ArrowRight): when the selected node is a collapsed
  folder, its path is added to the expansion set and the selection stays; when it is an
  expanded folder with at least one child, the selection moves to the first child and the
  expansion set stays; when there is no selection, the first visible node (the root of
  the tree) becomes selected.
\<close>

theorem arrowRight_transition:
  "(selectedNode s = Some n \<longrightarrow> selectedPath s = Some (path n))
   \<and> (selectedNode s = Some n \<and> type n = Folder \<and> path n \<notin> expanded s \<longrightarrow>
        arrowRight s = Inr (s\<lparr>expanded := insert (path n) (expanded s)\<rparr>))
   \<and> (selectedNode s = Some n \<and> type n = Folder \<and> path n \<in> expanded s
        \<and> children n = Some (c # cs) \<longrightarrow>
        arrowRight s = Inr (s\<lparr>selectedPath := Some (path c)\<rparr>))
   \<and> (\<not> truthy (selectedPath s) \<and> tree s = Some r \<longrightarrow>
        visibleNodes s \<noteq> [] \<and> hd (visibleNodes s) = \<lparr>node = r, depth = 0\<rparr>
        \<and> arrowRight s = Inr (s\<lparr>selectedPath := Some (path (node (hd (visibleNodes s))))\<rparr>))
   \<and> handleTreeKeyDown \<lparr>key = ''ArrowRight'', defaultPrevented = False\<rparr> now s = arrowRight s"
proof -
  have a: "selectedNode s = Some n \<longrightarrow> selectedPath s = Some (path n)"
    using findNodeByPath_path [of "tree s" "selectedPath s" n] by (simp add: selectedNode_def)
  have b: "selectedNode s = Some n \<and> type n = Folder \<and> path n \<notin> expanded s \<longrightarrow>
        arrowRight s = Inr (s\<lparr>expanded := insert (path n) (expanded s)\<rparr>)"
    by (simp add: arrowRight_def)
  have c: "selectedNode s = Some n \<and> type n = Folder \<and> path n \<in> expanded s
        \<and> children n = Some (c # cs) \<longrightarrow>
        arrowRight s = Inr (s\<lparr>selectedPath := Some (path c)\<rparr>)"
    by (simp add: arrowRight_def childArray_def)
  have d: "\<not> truthy (selectedPath s) \<and> tree s = Some r \<longrightarrow>
        visibleNodes s \<noteq> [] \<and> hd (visibleNodes s) = \<lparr>node = r, depth = 0\<rparr>
        \<and> arrowRight s = Inr (s\<lparr>selectedPath := Some (path (node (hd (visibleNodes s))))\<rparr>)"
  proof (intro impI, elim conjE)
    assume f: "\<not> truthy (selectedPath s)" and t: "tree s = Some r"
    from visibleNodes_Some [OF t] selectedNode_falsy [OF f]
    show "visibleNodes s \<noteq> [] \<and> hd (visibleNodes s) = \<lparr>node = r, depth = 0\<rparr>
        \<and> arrowRight s = Inr (s\<lparr>selectedPath := Some (path (node (hd (visibleNodes s))))\<rparr>)"
      by (simp add: arrowRight_def)
  qed
  have e: "handleTreeKeyDown \<lparr>key = ''ArrowRight'', defaultPrevented = False\<rparr> now s
      = arrowRight s"
    by (simp add: handleTreeKeyDown_def)
  from a b c d e show ?thesis by blast
qed

lemma exTree_find_root:
  "findNodeByPath (Some exTree) (Some ''root'') = Some exTree"
  by (simp add: findNodeByPath_def truthy_def exTree_def)

lemma exTree_find_sub:
  "findNodeByPath (Some exTree) (Some ''root/b'') = Some exSub"
  by (simp add: findNodeByPath_def truthy_def exTree_def exSub_def exFile_def childArray_def
      findNodeLoop.simps)

lemma exTree_find_file:
  "findNodeByPath (Some exTree) (Some ''root/b/c.txt'') = Some (exFile ''c.txt'' ''root/b/c.txt'')"
  by (simp add: findNodeByPath_def truthy_def exTree_def exSub_def exFile_def childArray_def
      findNodeLoop.simps)

theorem arrowRight_transition_witness:
  "selectedNode (exState (Some ''root/b'') {''root''}) = Some exSub
   \<and> arrowRight (exState (Some ''root/b'') {''root''}) =
       Inr (exState (Some ''root/b'') {''root/b'', ''root''})
   \<and> selectedNode (exState (Some ''root'') {''root''}) = Some exTree
   \<and> arrowRight (exState (Some ''root'') {''root''}) =
       Inr (exState (Some ''root/a.txt'') {''root''})
   \<and> arrowRight (exState None {''root''}) = Inr (exState (Some ''root'') {''root''})"
proof -
  have s1: "selectedNode (exState (Some ''root/b'') {''root''}) = Some exSub"
    by (simp add: selectedNode_def exState_def exTree_find_sub)
  have h1: "type exSub = Folder \<and> path exSub \<notin> expanded (exState (Some ''root/b'') {''root''})"
    by (simp add: exSub_def exState_def)
  have s2: "selectedNode (exState (Some ''root'') {''root''}) = Some exTree"
    by (simp add: selectedNode_def exState_def exTree_find_root)
  have h2: "type exTree = Folder \<and> path exTree \<in> expanded (exState (Some ''root'') {''root''})
      \<and> children exTree = Some (exFile ''a.txt'' ''root/a.txt'' # [exSub])"
    by (simp add: exTree_def exState_def)
  have h3: "\<not> truthy (selectedPath (exState None {''root''}))
      \<and> tree (exState None {''root''}) = Some exTree"
    by (simp add: exState_def truthy_def)
  have "arrowRight (exState (Some ''root/b'') {''root''}) =
      Inr ((exState (Some ''root/b'') {''root''})
        \<lparr>expanded := insert (path exSub) (expanded (exState (Some ''root/b'') {''root''}))\<rparr>)"
    using arrowRight_transition [where s = "exState (Some ''root/b'') {''root''}" and n = exSub
        and c = exSub and cs = "[]" and r = exTree and now = 0] s1 h1
    by blast
  then have r1: "arrowRight (exState (Some ''root/b'') {''root''}) =
       Inr (exState (Some ''root/b'') {''root/b'', ''root''})"
    by (simp add: exState_def exSub_def)
  have "arrowRight (exState (Some ''root'') {''root''}) =
      Inr ((exState (Some ''root'') {''root''})
        \<lparr>selectedPath := Some (path (exFile ''a.txt'' ''root/a.txt''))\<rparr>)"
    using arrowRight_transition [where s = "exState (Some ''root'') {''root''}" and n = exTree
        and c = "exFile ''a.txt'' ''root/a.txt''" and cs = "[exSub]" and r = exTree and now = 0]
      s2 h2
    by blast
  then have r2: "arrowRight (exState (Some ''root'') {''root''}) =
       Inr (exState (Some ''root/a.txt'') {''root''})"
    by (simp add: exState_def exFile_def)
  have "hd (visibleNodes (exState None {''root''})) = \<lparr>node = exTree, depth = 0\<rparr>
      \<and> arrowRight (exState None {''root''}) =
      Inr ((exState None {''root''})
        \<lparr>selectedPath := Some (path (node (hd (visibleNodes (exState None {''root''})))))\<rparr>)"
    using arrowRight_transition [where s = "exState None {''root''}" and n = exTree
        and c = exSub and cs = "[]" and r = exTree and now = 0] h3
    by blast
  then have r3: "arrowRight (exState None {''root''}) = Inr (exState (Some ''root'') {''root''})"
    by (simp add: exState_def exTree_def)
  from s1 s2 r1 r2 r3 show ?thesis by simp
qed

text \<open>
  Claim C5. The Collapse transition (ArrowLeft), in a state whose selection resolves to a
  node: when the selected node is an expanded folder, its path is removed from the
  expansion set and the selection stays; when it is a collapsed folder or a file and is
  not the root, \<open>findParentPath\<close>, searching the current tree by path, returns the path
  of the node whose child the selected node is, and the selection moves to that path
  (a parent whose path is the empty string leaves the selection where it is); when it is
  the root, collapsed, nothing changes.
\<close>

theorem arrowLeft_transition:
  "(selectedNode s = Some n \<and> type n = Folder \<and> path n \<in> expanded s \<longrightarrow>
      arrowLeft s = s\<lparr>expanded := expanded s - {path n}\<rparr>)
   \<and> (selectedNode s = Some n \<and> \<not> (type n = Folder \<and> path n \<in> expanded s)
        \<and> tree s = Some r \<and> selectedPath s \<noteq> Some (path r) \<longrightarrow>
        (\<exists>par \<in> set (searchOrder r).
           n \<in> set (childArray par)
           \<and> findParentPath (tree s) (selectedPath s) = Some (path par)
           \<and> arrowLeft s = (if path par = [] then s else s\<lparr>selectedPath := Some (path par)\<rparr>)))
   \<and> (selectedNode s = Some n \<and> \<not> (type n = Folder \<and> path n \<in> expanded s)
        \<and> tree s = Some r \<and> selectedPath s = Some (path r) \<longrightarrow>
        n = r \<and> arrowLeft s = s)
   \<and> (selectedNode s = None \<longrightarrow> arrowLeft s = s)
   \<and> handleTreeKeyDown \<lparr>key = ''ArrowLeft'', defaultPrevented = False\<rparr> now s
       = Inr (arrowLeft s)"
proof -
  have a: "selectedNode s = Some n \<and> type n = Folder \<and> path n \<in> expanded s \<longrightarrow>
      arrowLeft s = s\<lparr>expanded := expanded s - {path n}\<rparr>"
    by (simp add: arrowLeft_def)
  have b: "selectedNode s = Some n \<and> \<not> (type n = Folder \<and> path n \<in> expanded s)
        \<and> tree s = Some r \<and> selectedPath s \<noteq> Some (path r) \<longrightarrow>
        (\<exists>par \<in> set (searchOrder r).
           n \<in> set (childArray par)
           \<and> findParentPath (tree s) (selectedPath s) = Some (path par)
           \<and> arrowLeft s = (if path par = [] then s else s\<lparr>selectedPath := Some (path par)\<rparr>))"
  proof (intro impI, elim conjE)
    assume sn: "selectedNode s = Some n"
      and ne: "\<not> (type n = Folder \<and> path n \<in> expanded s)"
      and t: "tree s = Some r" and nr: "selectedPath s \<noteq> Some (path r)"
    from sn have sp: "selectedPath s = Some (path n)"
      using findNodeByPath_path [of "tree s" "selectedPath s" n] by (simp add: selectedNode_def)
    from sn t sp have f: "findNodeByPath (Some r) (Some (path n)) = Some n"
      by (simp add: selectedNode_def)
    from nr sp have d: "path r \<noteq> path n" by auto
    from findParentPath_parent [OF f d]
    obtain par where par: "par \<in> set (searchOrder r)" "n \<in> set (childArray par)"
      "findParentPath (Some r) (Some (path n)) = Some (path par)" by blast
    have "arrowLeft s = (if path par = [] then s else s\<lparr>selectedPath := Some (path par)\<rparr>)"
      using sn ne par(3) t sp by (auto simp: arrowLeft_def truthy_def)
    with par t sp
    show "\<exists>par \<in> set (searchOrder r).
           n \<in> set (childArray par)
           \<and> findParentPath (tree s) (selectedPath s) = Some (path par)
           \<and> arrowLeft s = (if path par = [] then s else s\<lparr>selectedPath := Some (path par)\<rparr>)"
      by auto
  qed
  have c: "selectedNode s = Some n \<and> \<not> (type n = Folder \<and> path n \<in> expanded s)
        \<and> tree s = Some r \<and> selectedPath s = Some (path r) \<longrightarrow>
        n = r \<and> arrowLeft s = s"
  proof (intro impI, elim conjE)
    assume sn: "selectedNode s = Some n"
      and ne: "\<not> (type n = Folder \<and> path n \<in> expanded s)"
      and t: "tree s = Some r" and sr: "selectedPath s = Some (path r)"
    from sn t sr have "n = r"
      by (auto simp: selectedNode_def findNodeByPath_def split: if_splits)
    moreover have "findParentPath (tree s) (selectedPath s) = None"
      using t sr by (simp add: findParentPath_def)
    ultimately show "n = r \<and> arrowLeft s = s"
      using sn ne by (auto simp: arrowLeft_def truthy_def)
  qed
  have d: "selectedNode s = None \<longrightarrow> arrowLeft s = s"
    by (simp add: arrowLeft_def)
  have e: "handleTreeKeyDown \<lparr>key = ''ArrowLeft'', defaultPrevented = False\<rparr> now s
       = Inr (arrowLeft s)"
    by (simp add: handleTreeKeyDown_def)
  from a b c d e show ?thesis by blast
qed

theorem arrowLeft_transition_witness:
  "selectedNode (exState (Some ''root/b'') {''root'', ''root/b''}) = Some exSub
   \<and> arrowLeft (exState (Some ''root/b'') {''root'', ''root/b''}) =
       exState (Some ''root/b'') {''root''}
   \<and> selectedNode (exState (Some ''root/b/c.txt'') {''root'', ''root/b''}) =
       Some (exFile ''c.txt'' ''root/b/c.txt'')
   \<and> arrowLeft (exState (Some ''root/b/c.txt'') {''root'', ''root/b''}) =
       exState (Some ''root/b'') {''root'', ''root/b''}
   \<and> selectedNode (exState (Some ''root'') {}) = Some exTree
   \<and> arrowLeft (exState (Some ''root'') {}) = exState (Some ''root'') {}"
proof -
  let ?s1 = "exState (Some ''root/b'') {''root'', ''root/b''}"
  let ?s2 = "exState (Some ''root/b/c.txt'') {''root'', ''root/b''}"
  let ?s3 = "exState (Some ''root'') {}"
  let ?f = "exFile ''c.txt'' ''root/b/c.txt''"
  have s1: "selectedNode ?s1 = Some exSub"
    by (simp add: selectedNode_def exState_def exTree_find_sub)
  have h1: "type exSub = Folder \<and> path exSub \<in> expanded ?s1"
    by (simp add: exSub_def exState_def)
  have s2: "selectedNode ?s2 = Some ?f"
    by (simp add: selectedNode_def exState_def exTree_find_file)
  have h2: "\<not> (type ?f = Folder \<and> path ?f \<in> expanded ?s2) \<and> tree ?s2 = Some exTree
      \<and> selectedPath ?s2 \<noteq> Some (path exTree)"
    by (simp add: exFile_def exState_def exTree_def)
  have s3: "selectedNode ?s3 = Some exTree"
    by (simp add: selectedNode_def exState_def exTree_find_root)
  have h3: "\<not> (type exTree = Folder \<and> path exTree \<in> expanded ?s3) \<and> tree ?s3 = Some exTree
      \<and> selectedPath ?s3 = Some (path exTree)"
    by (simp add: exState_def exTree_def)
  have "arrowLeft ?s1 = ?s1\<lparr>expanded := expanded ?s1 - {path exSub}\<rparr>"
    using arrowLeft_transition [where s = ?s1 and n = exSub and r = exTree and now = 0] s1 h1
    by blast
  then have r1: "arrowLeft ?s1 = exState (Some ''root/b'') {''root''}"
    by (simp add: exState_def exSub_def insert_Diff_if)
  have pp: "findParentPath (tree ?s2) (selectedPath ?s2) = Some ''root/b''"
    by (simp add: findParentPath_def truthy_def exState_def exTree_def exSub_def exFile_def
        childArray_def findParentLoop.simps)
  have "\<exists>par \<in> set (searchOrder exTree).
           ?f \<in> set (childArray par)
           \<and> findParentPath (tree ?s2) (selectedPath ?s2) = Some (path par)
           \<and> arrowLeft ?s2 =
               (if path par = [] then ?s2 else ?s2\<lparr>selectedPath := Some (path par)\<rparr>)"
    using arrowLeft_transition [where s = ?s2 and n = ?f and r = exTree and now = 0] s2 h2
    by blast
  then obtain par where "findParentPath (tree ?s2) (selectedPath ?s2) = Some (path par)"
    and al: "arrowLeft ?s2 =
               (if path par = [] then ?s2 else ?s2\<lparr>selectedPath := Some (path par)\<rparr>)"
    by blast
  with pp have "path par = ''root/b''" by simp
  with al have r2: "arrowLeft ?s2 = exState (Some ''root/b'') {''root'', ''root/b''}"
    by (simp add: exState_def)
  have r3: "arrowLeft ?s3 = ?s3"
    using arrowLeft_transition [where s = ?s3 and n = exTree and r = exTree and now = 0] s3 h3
    by blast
  from s1 s2 s3 r1 r2 r3 show ?thesis by simp
qed

subsection \<open>Snapshot replacement\<close>

text \<open>
  Claim C6. A snapshot delivered over the push channel replaces the tree and leaves the
  expansion set as it is. A selection survives exactly when its path resolves in the new
  snapshot, that is, when \<open>findNodeByPath\<close> finds it, which is when some node that the
  search reaches has that path; otherwise the selection becomes null. With no selection
  before, there is none after.
\<close>

theorem onmessage_selection:
  "expanded (onmessage False payload s) = expanded s
   \<and> tree (onmessage False payload s) = Some payload
   \<and> (findNodeByPath (Some payload) (Some p) \<noteq> None) =
       (p \<noteq> [] \<and> p \<in> set (map path (searchOrder payload)))
   \<and> (selectedPath s = Some p \<and> p \<noteq> [] \<and> p \<in> set (map path (searchOrder payload)) \<longrightarrow>
        selectedPath (onmessage False payload s) = Some p)
   \<and> (selectedPath s = Some p \<and> p \<noteq> [] \<and> p \<notin> set (map path (searchOrder payload)) \<longrightarrow>
        selectedPath (onmessage False payload s) = None)
   \<and> (\<not> truthy (selectedPath s) \<longrightarrow>
        selectedPath (onmessage False payload s) = selectedPath s)
   \<and> onmessage True payload s = s"
proof -
  have r: "(findNodeByPath (Some payload) (Some p) \<noteq> None) =
       (p \<noteq> [] \<and> p \<in> set (map path (searchOrder payload)))"
    by (rule findNodeByPath_resolves)
  have a: "expanded (onmessage False payload s) = expanded s"
    by (simp add: onmessage_def)
  have b: "tree (onmessage False payload s) = Some payload"
    by (simp add: onmessage_def)
  have c: "selectedPath s = Some p \<and> p \<noteq> [] \<and> p \<in> set (map path (searchOrder payload)) \<longrightarrow>
        selectedPath (onmessage False payload s) = Some p"
    using r by (auto simp: onmessage_def truthy_def Let_def)
  have d: "selectedPath s = Some p \<and> p \<noteq> [] \<and> p \<notin> set (map path (searchOrder payload)) \<longrightarrow>
        selectedPath (onmessage False payload s) = None"
    using r by (auto simp: onmessage_def truthy_def Let_def)
  have e: "\<not> truthy (selectedPath s) \<longrightarrow>
        selectedPath (onmessage False payload s) = selectedPath s"
    by (simp add: onmessage_def Let_def)
  have f: "onmessage True payload s = s"
    by (simp add: onmessage_def)
  from a b r c d e f show ?thesis by blast
qed

lemma exTree2_paths:
  "map path (searchOrder exTree2) = [''root'', ''root/b'', ''root/b/c.txt'', ''root/z.txt'']"
  by (simp add: searchOrder_def exTree2_def exSub_def exFile_def childArray_def
      subtreeOrder.simps)

theorem onmessage_selection_witness:
  "onmessage False exTree2 (exState (Some ''root/b'') {''root''}) =
     \<lparr>tree = Some exTree2, expanded = {''root''}, selectedPath = Some ''root/b'',
      typeaheadState = \<lparr>buffer = [], lastInputTime = 0\<rparr>\<rparr>
   \<and> onmessage False exTree2 (exState (Some ''root/a.txt'') {''root''}) =
     \<lparr>tree = Some exTree2, expanded = {''root''}, selectedPath = None,
      typeaheadState = \<lparr>buffer = [], lastInputTime = 0\<rparr>\<rparr>
   \<and> onmessage False exTree2 (exState None {''root''}) =
     \<lparr>tree = Some exTree2, expanded = {''root''}, selectedPath = None,
      typeaheadState = \<lparr>buffer = [], lastInputTime = 0\<rparr>\<rparr>"
proof -
  let ?s1 = "exState (Some ''root/b'') {''root''}"
  let ?s2 = "exState (Some ''root/a.txt'') {''root''}"
  let ?s3 = "exState None {''root''}"
  have h1: "selectedPath ?s1 = Some ''root/b'' \<and> ''root/b'' \<noteq> []
      \<and> ''root/b'' \<in> set (map path (searchOrder exTree2))"
    by (simp add: exState_def exTree2_paths)
  have h2: "selectedPath ?s2 = Some ''root/a.txt'' \<and> ''root/a.txt'' \<noteq> []
      \<and> ''root/a.txt'' \<notin> set (map path (searchOrder exTree2))"
    by (simp add: exState_def exTree2_paths)
  have h3: "\<not> truthy (selectedPath ?s3)"
    by (simp add: exState_def truthy_def)
  have r1: "expanded (onmessage False exTree2 ?s1) = expanded ?s1
      \<and> tree (onmessage False exTree2 ?s1) = Some exTree2
      \<and> selectedPath (onmessage False exTree2 ?s1) = Some ''root/b''"
    using onmessage_selection [where s = ?s1 and payload = exTree2 and p = "''root/b''"] h1
    by blast
  have r2: "expanded (onmessage False exTree2 ?s2) = expanded ?s2
      \<and> tree (onmessage False exTree2 ?s2) = Some exTree2
      \<and> selectedPath (onmessage False exTree2 ?s2) = None"
    using onmessage_selection [where s = ?s2 and payload = exTree2 and p = "''root/a.txt''"] h2
    by blast
  have r3: "expanded (onmessage False exTree2 ?s3) = expanded ?s3
      \<and> tree (onmessage False exTree2 ?s3) = Some exTree2
      \<and> selectedPath (onmessage False exTree2 ?s3) = selectedPath ?s3"
    using onmessage_selection [where s = ?s3 and payload = exTree2 and p = "''root/b''"] h3
    by blast
  have t: "\<And>u. typeaheadState (onmessage False exTree2 u) = typeaheadState u"
    by (simp add: onmessage_def)
  have eq: "\<And>u v. tree u = tree v \<Longrightarrow> expanded u = expanded v \<Longrightarrow>
      selectedPath u = selectedPath v \<Longrightarrow> typeaheadState u = typeaheadState v \<Longrightarrow>
      u = (v :: ExplorerState)"
    by simp
  have "onmessage False exTree2 ?s1 =
     \<lparr>tree = Some exTree2, expanded = {''root''}, selectedPath = Some ''root/b'',
      typeaheadState = \<lparr>buffer = [], lastInputTime = 0\<rparr>\<rparr>"
    using r1 t [of ?s1] by (intro eq) (simp_all add: exState_def)
  moreover have "onmessage False exTree2 ?s2 =
     \<lparr>tree = Some exTree2, expanded = {''root''}, selectedPath = None,
      typeaheadState = \<lparr>buffer = [], lastInputTime = 0\<rparr>\<rparr>"
    using r2 t [of ?s2] by (intro eq) (simp_all add: exState_def)
  moreover have "onmessage False exTree2 ?s3 =
     \<lparr>tree = Some exTree2, expanded = {''root''}, selectedPath = None,
      typeaheadState = \<lparr>buffer = [], lastInputTime = 0\<rparr>\<rparr>"
    using r3 t [of ?s3] by (intro eq) (simp_all add: exState_def)
  ultimately show ?thesis by blast
qed

subsection \<open>The shared watcher\<close>

lemma off_Nil: "off cb [] = []"
  by (simp add: off_def)

text \<open>
  Subscriptions that do not overlap keep the route settled: the first opens the watcher,
  later ones share it, and the unsubscription that leaves no callback closes it.
\<close>

lemma settled_initial: "settled initialRoute"
  by (simp add: settled_def initialRoute_def initialServer_def)

lemma settled_subscribeAlone:
  assumes "settled r"
  shows "settled (subscribeAlone cb r)"
    and "listeners (server (subscribeAlone cb r)) = listeners (server r) @ [cb]"
    and "listeners (server r) \<noteq> [] \<Longrightarrow>
           watcher (server (subscribeAlone cb r)) = watcher (server r)
           \<and> opened (server (subscribeAlone cb r)) = opened (server r)"
    and "listeners (server r) = [] \<Longrightarrow>
           watcher (server (subscribeAlone cb r)) = Some (opened (server r))"
proof -
  from assms have su: "suspended r = []"
    and w: "(watcher (server r) \<noteq> None) = (listeners (server r) \<noteq> [])"
    and o: "opened (server r) = length (closed (server r))
           + (case watcher (server r) of None \<Rightarrow> 0 | Some h \<Rightarrow> 1)"
    by (simp_all add: settled_def)
  show "settled (subscribeAlone cb r)"
    using su w o
    by (cases "watcher (server r)")
      (simp_all add: settled_def subscribeAlone_def ensureWatcher_returns_def
        ensureWatcher_watch_def subscribeToFileTreeChanges_on_def)
  show "listeners (server (subscribeAlone cb r)) = listeners (server r) @ [cb]"
    using su
    by (cases "watcher (server r)")
      (simp_all add: subscribeAlone_def ensureWatcher_returns_def
        ensureWatcher_watch_def subscribeToFileTreeChanges_on_def)
  show "listeners (server r) \<noteq> [] \<Longrightarrow>
           watcher (server (subscribeAlone cb r)) = watcher (server r)
           \<and> opened (server (subscribeAlone cb r)) = opened (server r)"
    using su w
    by (cases "watcher (server r)")
      (simp_all add: subscribeAlone_def ensureWatcher_returns_def
        ensureWatcher_watch_def subscribeToFileTreeChanges_on_def)
  show "listeners (server r) = [] \<Longrightarrow>
           watcher (server (subscribeAlone cb r)) = Some (opened (server r))"
    using su w
    by (cases "watcher (server r)")
      (simp_all add: subscribeAlone_def ensureWatcher_returns_def
        ensureWatcher_watch_def subscribeToFileTreeChanges_on_def)
qed

lemma settled_unsubscribe:
  assumes "settled r"
  shows "settled (apply_step r (Unsubscribe cb))"
proof -
  from assms have su: "suspended r = []"
    and w: "(watcher (server r) \<noteq> None) = (listeners (server r) \<noteq> [])"
    and o: "opened (server r) = length (closed (server r))
           + (case watcher (server r) of None \<Rightarrow> 0 | Some h \<Rightarrow> 1)"
    by (simp_all add: settled_def)
  show ?thesis
  proof (cases "off cb (listeners (server r)) = []")
    case True
    show ?thesis
    proof (cases "watcher (server r)")
      case None
      with su o True show ?thesis
        by (simp add: settled_def unsubscribe_def stopWatcher_def)
    next
      case (Some h)
      with su o True show ?thesis
        by (simp add: settled_def unsubscribe_def stopWatcher_def)
    qed
  next
    case False
    then have "listeners (server r) \<noteq> []" by (auto simp: off_Nil)
    with w have "watcher (server r) \<noteq> None" by simp
    with su o False show ?thesis
      by (simp add: settled_def unsubscribe_def)
  qed
qed

text \<open>
  Claim C9, at a run the code can take. Two clients connect together: both calls of
  \<^verbatim>\<open>ensureWatcher\<close> test \<^verbatim>\<open>watcher\<close> before either has assigned it, so both
  open a watch handle, and the second assignment overwrites the first handle. When both
  callbacks are registered two handles are open; when both have unsubscribed, the handle
  opened second has been closed and the one opened first (number 0) is still open, with no
  callback registered: the state is not the settled one that the claim describes, in
  which a handle is open exactly when a callback is registered and the last unsubscription
  closes it.
\<close>

theorem watcher_race_leak:
  "run_steps [Subscribe 4, Subscribe 5, TreeOnDisk 4, Continue 4, TreeOnDisk 5, Continue 5] =
     \<lparr>server = \<lparr>watcher = Some 1, debounceTimer = None, listeners = [4, 5], opened = 2,
                closed = [], emitted = []\<rparr>,
      suspended = []\<rparr>
   \<and> run_steps [Subscribe 4, Subscribe 5, TreeOnDisk 4, Continue 4, TreeOnDisk 5, Continue 5,
        Unsubscribe 4, Unsubscribe 5] =
     \<lparr>server = \<lparr>watcher = None, debounceTimer = None, listeners = [], opened = 2,
                closed = [1], emitted = []\<rparr>,
      suspended = []\<rparr>
   \<and> \<not> settled (run_steps [Subscribe 4, Subscribe 5, TreeOnDisk 4, Continue 4, TreeOnDisk 5,
        Continue 5])
   \<and> \<not> settled (run_steps [Subscribe 4, Subscribe 5, TreeOnDisk 4, Continue 4, TreeOnDisk 5,
        Continue 5, Unsubscribe 4, Unsubscribe 5])"
proof -
  have a: "run_steps [Subscribe 4, Subscribe 5, TreeOnDisk 4, Continue 4, TreeOnDisk 5,
      Continue 5] =
     \<lparr>server = \<lparr>watcher = Some 1, debounceTimer = None, listeners = [4, 5], opened = 2,
                closed = [], emitted = []\<rparr>,
      suspended = []\<rparr>"
    by (simp add: run_steps_def initialRoute_def initialServer_def ensureWatcher_returns_def
        ensureWatcher_watch_def subscribeToFileTreeChanges_on_def)
  have b: "run_steps [Subscribe 4, Subscribe 5, TreeOnDisk 4, Continue 4, TreeOnDisk 5,
      Continue 5, Unsubscribe 4, Unsubscribe 5] =
     \<lparr>server = \<lparr>watcher = None, debounceTimer = None, listeners = [], opened = 2,
                closed = [1], emitted = []\<rparr>,
      suspended = []\<rparr>"
    by (simp add: run_steps_def initialRoute_def initialServer_def ensureWatcher_returns_def
        ensureWatcher_watch_def subscribeToFileTreeChanges_on_def unsubscribe_def
        stopWatcher_def off_def)
  have c: "\<not> settled (run_steps [Subscribe 4, Subscribe 5, TreeOnDisk 4, Continue 4,
      TreeOnDisk 5, Continue 5])"
    unfolding a by (simp add: settled_def)
  have d: "\<not> settled (run_steps [Subscribe 4, Subscribe 5, TreeOnDisk 4, Continue 4,
      TreeOnDisk 5, Continue 5, Unsubscribe 4, Unsubscribe 5])"
    unfolding b by (simp add: settled_def)
  from a b c d show ?thesis by blast
qed

lemma sequential_example:
  "subscribeAlone 5 (subscribeAlone 4 initialRoute) =
     \<lparr>server = \<lparr>watcher = Some 0, debounceTimer = None, listeners = [4, 5], opened = 1,
                closed = [], emitted = []\<rparr>,
      suspended = []\<rparr>"
  by (simp add: subscribeAlone_def initialRoute_def initialServer_def ensureWatcher_returns_def
        ensureWatcher_watch_def subscribeToFileTreeChanges_on_def)

subsection \<open>The coalescer\<close>

lemma rawEvents_pending:
  "debounceTimer s = Some due \<Longrightarrow> (\<And>t. t \<in> set ts \<Longrightarrow> t < due) \<Longrightarrow> rawEvents ts s = s"
proof (induction ts)
  case Nil
  show ?case by simp
next
  case (Cons t ts)
  from Cons.prems have "t < due" by simp
  with Cons.prems(1) have "scheduleEmit t (runTimers t s) = s"
    by (simp add: runTimers_def scheduleEmit_def)
  with Cons show ?case by simp
qed

lemma emitted_burst:
  assumes "ts \<noteq> []" and "\<And>t. t \<in> set ts \<Longrightarrow> t < hd ts + COALESCE_MS"
    and "debounceTimer s = None"
  shows "emitted (settle (rawEvents ts s)) = emitted s @ [hd ts + COALESCE_MS]"
proof -
  from assms(1) obtain t0 rest where ts: "ts = t0 # rest" by (cases ts) auto
  let ?s = "s\<lparr>debounceTimer := Some (t0 + COALESCE_MS)\<rparr>"
  have "rawEvents ts s = rawEvents rest ?s"
    using assms(3) by (simp add: ts runTimers_def scheduleEmit_def)
  also have "\<dots> = ?s"
    using assms(2) by (intro rawEvents_pending [where due = "t0 + COALESCE_MS"]) (simp_all add: ts)
  finally show ?thesis
    by (simp add: settle_def timerCallback_def ts)
qed

lemma rawEvents_spaced:
  "debounceTimer s = Some (t0 + COALESCE_MS) \<Longrightarrow>
   successively (\<lambda>a b. a + COALESCE_MS < b) (t0 # ts) \<Longrightarrow>
     emitted (settle (rawEvents ts s)) = emitted s @ map (\<lambda>t. t + COALESCE_MS) (t0 # ts)"
proof (induction ts arbitrary: s t0)
  case Nil
  then show ?case by (simp add: settle_def timerCallback_def)
next
  case (Cons u ts)
  from Cons.prems(2) have lt: "t0 + COALESCE_MS < u"
    and rest: "successively (\<lambda>a b. a + COALESCE_MS < b) (u # ts)" by simp_all
  let ?s' = "scheduleEmit u (runTimers u s)"
  have s': "?s' = s\<lparr>debounceTimer := Some (u + COALESCE_MS),
      emitted := emitted s @ [t0 + COALESCE_MS]\<rparr>"
    using Cons.prems(1) lt by (simp add: runTimers_def scheduleEmit_def timerCallback_def)
  have "emitted (settle (rawEvents ts ?s')) =
      emitted ?s' @ map (\<lambda>t. t + COALESCE_MS) (u # ts)"
    by (rule Cons.IH [OF _ rest]) (simp add: s')
  then show ?case by (simp add: s')
qed

lemma emitted_spaced:
  assumes "successively (\<lambda>a b. a + COALESCE_MS < b) ts" and "debounceTimer s = None"
  shows "emitted (settle (rawEvents ts s)) = emitted s @ map (\<lambda>t. t + COALESCE_MS) ts"
proof (cases ts)
  case Nil
  then show ?thesis using assms(2) by (simp add: settle_def)
next
  case (Cons t0 rest)
  let ?s = "s\<lparr>debounceTimer := Some (t0 + COALESCE_MS)\<rparr>"
  have "rawEvents ts s = rawEvents rest ?s"
    using assms(2) by (simp add: Cons runTimers_def scheduleEmit_def)
  moreover have "emitted (settle (rawEvents rest ?s)) =
      emitted ?s @ map (\<lambda>t. t + COALESCE_MS) (t0 # rest)"
    using assms(1) by (intro rawEvents_spaced) (simp_all add: Cons)
  ultimately show ?thesis by (simp add: Cons)
qed

text \<open>
  Claim C8. With the timer model above and no timer pending at the start: a burst of one
  or more raw events that all arrive before the quiet period of 75 ms after the first has
  passed gives exactly one signal, at the fixed delay after the first event; an event
  that arrives while the timer is pending changes nothing (the deadline is not moved);
  and raw events each more than the quiet period after the one before give one signal
  each.
\<close>

theorem coalescer_signals:
  "COALESCE_MS = 75
   \<and> (ts \<noteq> [] \<and> sorted ts \<and> last ts < hd ts + COALESCE_MS \<and> debounceTimer s = None \<longrightarrow>
        emitted (settle (rawEvents ts s)) = emitted s @ [hd ts + COALESCE_MS])
   \<and> (debounceTimer s \<noteq> None \<longrightarrow> scheduleEmit now s = s)
   \<and> (debounceTimer s = None \<longrightarrow>
        debounceTimer (scheduleEmit now s) = Some (now + COALESCE_MS))
   \<and> (successively (\<lambda>a b. a + COALESCE_MS < b) ts \<and> debounceTimer s = None \<longrightarrow>
        emitted (settle (rawEvents ts s)) = emitted s @ map (\<lambda>t. t + COALESCE_MS) ts)"
proof -
  have a: "ts \<noteq> [] \<and> sorted ts \<and> last ts < hd ts + COALESCE_MS \<and> debounceTimer s = None \<longrightarrow>
        emitted (settle (rawEvents ts s)) = emitted s @ [hd ts + COALESCE_MS]"
  proof (intro impI, elim conjE)
    assume ne: "ts \<noteq> []" and so: "sorted ts" and la: "last ts < hd ts + COALESCE_MS"
      and idle: "debounceTimer s = None"
    have "\<And>t. t \<in> set ts \<Longrightarrow> t < hd ts + COALESCE_MS"
    proof -
      fix t assume "t \<in> set ts"
      then obtain i where i: "i < length ts" and t: "t = ts ! i" by (auto simp: in_set_conv_nth)
      have "ts ! i \<le> ts ! (length ts - 1)"
        using so i by (intro sorted_nth_mono) auto
      with ne t have "t \<le> last ts" by (simp add: last_conv_nth)
      with la show "t < hd ts + COALESCE_MS" by simp
    qed
    from emitted_burst [OF ne this idle]
    show "emitted (settle (rawEvents ts s)) = emitted s @ [hd ts + COALESCE_MS]" .
  qed
  have b: "debounceTimer s \<noteq> None \<longrightarrow> scheduleEmit now s = s"
    by (simp add: scheduleEmit_def)
  have c: "debounceTimer s = None \<longrightarrow>
        debounceTimer (scheduleEmit now s) = Some (now + COALESCE_MS)"
    by (simp add: scheduleEmit_def)
  have d: "successively (\<lambda>a b. a + COALESCE_MS < b) ts \<and> debounceTimer s = None \<longrightarrow>
        emitted (settle (rawEvents ts s)) = emitted s @ map (\<lambda>t. t + COALESCE_MS) ts"
    using emitted_spaced [of ts s] by simp
  from a b c d COALESCE_MS_def show ?thesis by blast
qed

theorem coalescer_signals_witness:
  "sorted [1000, 1010, 1074 :: nat]
   \<and> last [1000, 1010, 1074 :: nat] < hd [1000, 1010, 1074] + COALESCE_MS
   \<and> emitted (settle (rawEvents [1000, 1010, 1074] initialServer)) = [1075]
   \<and> successively (\<lambda>a b. a + COALESCE_MS < b) [1000, 1076, 1200 :: nat]
   \<and> emitted (settle (rawEvents [1000, 1076, 1200] initialServer)) = [1075, 1151, 1275]
   \<and> scheduleEmit 1010 (scheduleEmit 1000 initialServer) = scheduleEmit 1000 initialServer"
proof -
  have h0: "debounceTimer initialServer = None \<and> emitted initialServer = []"
    by (simp add: initialServer_def)
  have h1: "[1000, 1010, 1074 :: nat] \<noteq> [] \<and> sorted [1000, 1010, 1074 :: nat]
      \<and> last [1000, 1010, 1074 :: nat] < hd [1000, 1010, 1074] + COALESCE_MS"
    by (simp add: COALESCE_MS_def)
  have h2: "successively (\<lambda>a b. a + COALESCE_MS < b) [1000, 1076, 1200 :: nat]"
    by (simp add: COALESCE_MS_def)
  have h3: "debounceTimer (scheduleEmit 1000 initialServer) \<noteq> None"
    by (simp add: scheduleEmit_def initialServer_def)
  have "emitted (settle (rawEvents [1000, 1010, 1074] initialServer)) =
      emitted initialServer @ [hd [1000, 1010, 1074] + COALESCE_MS]"
    using coalescer_signals [where ts = "[1000, 1010, 1074]" and s = initialServer
        and now = 0] h0 h1
    by blast
  then have r1: "emitted (settle (rawEvents [1000, 1010, 1074] initialServer)) = [1075]"
    using h0 by (simp add: COALESCE_MS_def)
  have "emitted (settle (rawEvents [1000, 1076, 1200] initialServer)) =
      emitted initialServer @ map (\<lambda>t. t + COALESCE_MS) [1000, 1076, 1200]"
    using coalescer_signals [where ts = "[1000, 1076, 1200]" and s = initialServer
        and now = 0] h0 h2
    by blast
  then have r2: "emitted (settle (rawEvents [1000, 1076, 1200] initialServer)) =
      [1075, 1151, 1275]"
    using h0 by (simp add: COALESCE_MS_def)
  have r3: "scheduleEmit 1010 (scheduleEmit 1000 initialServer) = scheduleEmit 1000 initialServer"
    using coalescer_signals [where ts = "[1000, 1076, 1200]"
        and s = "scheduleEmit 1000 initialServer" and now = 1010] h3
    by blast
  from h1 h2 r1 r2 r3 show ?thesis by blast
qed

subsection \<open>The type-ahead search\<close>

lemma smod_nonneg: "0 \<le> a \<Longrightarrow> 0 < b \<Longrightarrow> (a::int) smod b = a mod b"
  by (simp add: smod_int_alt_def sgn_if)

lemma findIndexFrom_range:
  "findIndexFrom P k xs = -1 \<or> (k \<le> findIndexFrom P k xs \<and> findIndexFrom P k xs < k + int (length xs))"
proof (induction xs arbitrary: k)
  case Nil
  show ?case by simp
next
  case (Cons x xs)
  from Cons [of "k + 1"] show ?case by auto
qed

lemma findIndex_range: "-1 \<le> findIndex P xs \<and> findIndex P xs < int (length xs)"
  using findIndexFrom_range [of P 0 xs] by (auto simp: findIndex_def)

lemma typeaheadLoop_find:
  assumes "nodes \<noteq> []" and "-1 \<le> si" and "si < int (length nodes)" and "1 \<le> k"
  shows "typeaheadLoop q nodes si (int (length nodes)) k =
    Inr (find (\<lambda>c. startsWith (toLowerCase (name (node c))) q)
          (map (\<lambda>off. nodes ! nat ((si + off) mod int (length nodes))) [k..int (length nodes)]))"
  using assms
proof (induction q nodes si "int (length nodes)" k rule: typeaheadLoop.induct)
  case (1 q nodes si k)
  let ?n = "int (length nodes)"
  have npos: "0 < ?n" using "1.prems"(1) by simp
  show ?case
  proof (cases "k \<le> ?n")
    case False
    then show ?thesis
      by (simp add: typeaheadLoop.simps [of q nodes si ?n k])
  next
    case True
    have nonneg: "0 \<le> si + k + ?n" using "1.prems" by simp
    have idx: "(si + k + ?n) smod ?n = (si + k) mod ?n"
      using nonneg npos by (simp add: smod_nonneg)
    have r: "0 \<le> (si + k) mod ?n \<and> (si + k) mod ?n < ?n"
      using npos by simp
    have at: "at nodes ((si + k) mod ?n) = Inr (nodes ! nat ((si + k) mod ?n))"
      using r by (simp add: at_def)
    have up: "[k..?n] = k # [k + 1..?n]"
      using True by (simp add: upto_rec1)
    show ?thesis
    proof (cases "startsWith (toLowerCase (name (node (nodes ! nat ((si + k) mod ?n))))) q")
      case m: True
      then show ?thesis
        using True
        by (simp add: typeaheadLoop.simps [of q nodes si ?n k] idx at up Let_def)
    next
      case m: False
      have ih: "typeaheadLoop q nodes si ?n (k + 1) =
          Inr (find (\<lambda>c. startsWith (toLowerCase (name (node c))) q)
            (map (\<lambda>off. nodes ! nat ((si + off) mod ?n)) [k + 1..?n]))"
      proof (rule "1.hyps" [OF True])
        show "(si + k + ?n) smod ?n = (si + k + ?n) smod ?n" by (rule refl)
        show "at nodes ((si + k + ?n) smod ?n) = Inr (nodes ! nat ((si + k) mod ?n))"
          using idx at by simp
        show "\<not> startsWith (toLowerCase (name (node (nodes ! nat ((si + k) mod ?n))))) q"
          by (rule m)
        show "nodes \<noteq> []" by (rule "1.prems"(1))
        show "-1 \<le> si" by (rule "1.prems"(2))
        show "si < ?n" by (rule "1.prems"(3))
        show "1 \<le> k + 1" using "1.prems"(4) by simp
      qed
      have "typeaheadLoop q nodes si ?n k = typeaheadLoop q nodes si ?n (k + 1)"
        using True m
        by (simp add: typeaheadLoop.simps [of q nodes si ?n k] idx at Let_def)
      with ih m show ?thesis
        by (simp add: up)
    qed
  qed
qed

lemma scan_rotate:
  assumes "nodes \<noteq> []" and "-1 \<le> si" and "si < int (length nodes)"
  shows "map (\<lambda>off. nodes ! nat ((si + off) mod int (length nodes))) [1..int (length nodes)]
    = rotate (nat (si + 1)) nodes"
proof (rule nth_equalityI)
  show "length (map (\<lambda>off. nodes ! nat ((si + off) mod int (length nodes)))
      [1..int (length nodes)]) = length (rotate (nat (si + 1)) nodes)"
    by simp
next
  fix j
  assume "j < length (map (\<lambda>off. nodes ! nat ((si + off) mod int (length nodes)))
      [1..int (length nodes)])"
  then have j: "j < length nodes" by simp
  have "[1..int (length nodes)] ! j = 1 + int j"
    using j by (simp add: nth_upto)
  then have l: "map (\<lambda>off. nodes ! nat ((si + off) mod int (length nodes)))
      [1..int (length nodes)] ! j = nodes ! nat ((si + (1 + int j)) mod int (length nodes))"
    using j by simp
  have "int ((nat (si + 1) + j) mod length nodes) = (si + (1 + int j)) mod int (length nodes)"
    using assms(2) by (simp add: zmod_int add.assoc)
  then have "nat ((si + (1 + int j)) mod int (length nodes)) = (nat (si + 1) + j) mod length nodes"
    by linarith
  with l show "map (\<lambda>off. nodes ! nat ((si + off) mod int (length nodes)))
      [1..int (length nodes)] ! j = rotate (nat (si + 1)) nodes ! j"
    using j by (simp add: nth_rotate)
qed

lemma rotate_drop_take_le:
  "m \<le> length xs \<Longrightarrow> rotate m xs = drop m xs @ take m xs"
proof (cases "m = length xs")
  case True
  then show ?thesis by simp
next
  case False
  assume "m \<le> length xs"
  with False have "m mod length xs = m" by simp
  then show ?thesis by (simp add: rotate_drop_take)
qed

lemma findTypeaheadMatch_scan:
  assumes q: "toLowerCase (trim query) \<noteq> []" and ne: "nodes \<noteq> []"
    and si: "(if truthy sel then findIndex (\<lambda>item. Some (path (node item)) = sel) nodes
              else -1) = si"
  shows "findTypeaheadMatch query nodes sel =
    Inr (find (\<lambda>c. startsWith (toLowerCase (name (node c))) (toLowerCase (trim query)))
          (rotate (nat (si + 1)) nodes))"
proof -
  have range: "-1 \<le> si \<and> si < int (length nodes)"
    using si findIndex_range [of "\<lambda>item. Some (path (node item)) = sel" nodes] ne
    by (auto split: if_splits)
  have "findTypeaheadMatch query nodes sel =
      typeaheadLoop (toLowerCase (trim query)) nodes si (int (length nodes)) 1"
    using q ne unfolding findTypeaheadMatch_def Let_def si by simp
  also have "\<dots> = Inr (find (\<lambda>c. startsWith (toLowerCase (name (node c)))
        (toLowerCase (trim query)))
      (map (\<lambda>off. nodes ! nat ((si + off) mod int (length nodes))) [1..int (length nodes)]))"
    using range by (intro typeaheadLoop_find [OF ne]) simp_all
  finally show ?thesis
    using range by (simp add: scan_rotate [OF ne])
qed

lemma find_unique:
  assumes "x \<in> set xs" and "P x" and "\<And>y. y \<in> set xs \<Longrightarrow> P y \<Longrightarrow> y = x"
  shows "find P xs = Some x"
proof -
  from assms(1,2) have "find P xs \<noteq> None" by (auto simp: find_None_iff)
  then obtain y where y: "find P xs = Some y" by auto
  then have "y \<in> set xs" and "P y" by (auto simp: find_Some_iff)
  with assms(3) y show ?thesis by simp
qed

text \<open>
  Claim C2, against the claim as it is written: the buffer \<^verbatim>\<open>"a "\<close> is not empty, and
  of the two visible nodes only the second has a name that starts with it; the search
  trims the buffer and returns the first, whose name does not start with the buffer.
\<close>

theorem findTypeaheadMatch_trim_counterexample:
  "exTrimNodes = [exNamed ''apple'', exNamed ''a b.txt'']
   \<and> findTypeaheadMatch ''a '' exTrimNodes None = Inr (Some (exNamed ''apple''))
   \<and> \<not> startsWith (toLowerCase (name (node (exNamed ''apple'')))) (toLowerCase ''a '')
   \<and> startsWith (toLowerCase (name (node (exNamed ''a b.txt'')))) (toLowerCase ''a '')"
proof -
  have a: "findTypeaheadMatch ''a '' exTrimNodes None = Inr (Some (exNamed ''apple''))"
    by code_simp
  have b: "\<not> startsWith (toLowerCase (name (node (exNamed ''apple'')))) (toLowerCase ''a '')"
    by code_simp
  have c: "startsWith (toLowerCase (name (node (exNamed ''a b.txt'')))) (toLowerCase ''a '')"
    by code_simp
  from a b c exTrimNodes_def show ?thesis by blast
qed

text \<open>
  Claim C2, amended. The search works with the buffer trimmed of white space at both ends
  and lower-cased. When the trimmed buffer or the visible sequence is empty, the result
  is null. Otherwise the result is the first node whose lower-cased name starts with the
  trimmed, lower-cased buffer, in a circular scan of the whole sequence that starts
  immediately after the selected node (the first node whose path is the selection), wraps
  past the end and ends with the selected node itself; with no selection, or a selection
  that is the path of no visible node, the scan starts at the first node. In particular,
  when exactly one node matches, that node is returned, also when it is the selected one.
\<close>

theorem findTypeaheadMatch_circular:
  "(toLowerCase (trim query) = [] \<or> nodes = [] \<longrightarrow>
      findTypeaheadMatch query nodes sel = Inr None)
   \<and> (toLowerCase (trim query) \<noteq> [] \<and> i < length nodes
        \<and> sel = Some (path (node (nodes ! i))) \<and> path (node (nodes ! i)) \<noteq> []
        \<and> (\<forall>j<i. path (node (nodes ! j)) \<noteq> path (node (nodes ! i))) \<longrightarrow>
        findTypeaheadMatch query nodes sel =
          Inr (find (\<lambda>c. startsWith (toLowerCase (name (node c))) (toLowerCase (trim query)))
                (drop (i + 1) nodes @ take (i + 1) nodes)))
   \<and> (toLowerCase (trim query) \<noteq> []
        \<and> (\<not> truthy sel \<or> (\<forall>v \<in> set nodes. Some (path (node v)) \<noteq> sel)) \<longrightarrow>
        findTypeaheadMatch query nodes sel =
          Inr (find (\<lambda>c. startsWith (toLowerCase (name (node c))) (toLowerCase (trim query)))
                nodes))
   \<and> (toLowerCase (trim query) \<noteq> [] \<and> i < length nodes
        \<and> (\<forall>j<length nodes.
              startsWith (toLowerCase (name (node (nodes ! j)))) (toLowerCase (trim query))
                = (j = i)) \<longrightarrow>
        findTypeaheadMatch query nodes sel = Inr (Some (nodes ! i)))"
proof -
  let ?M = "\<lambda>c. startsWith (toLowerCase (name (node c))) (toLowerCase (trim query))"
  let ?si = "if truthy sel then findIndex (\<lambda>item. Some (path (node item)) = sel) nodes else -1"
  have a: "toLowerCase (trim query) = [] \<or> nodes = [] \<longrightarrow>
      findTypeaheadMatch query nodes sel = Inr None"
    by (auto simp: findTypeaheadMatch_def)
  have b: "toLowerCase (trim query) \<noteq> [] \<and> i < length nodes
        \<and> sel = Some (path (node (nodes ! i))) \<and> path (node (nodes ! i)) \<noteq> []
        \<and> (\<forall>j<i. path (node (nodes ! j)) \<noteq> path (node (nodes ! i))) \<longrightarrow>
        findTypeaheadMatch query nodes sel =
          Inr (find ?M (drop (i + 1) nodes @ take (i + 1) nodes))"
  proof (intro impI, elim conjE)
    assume q: "toLowerCase (trim query) \<noteq> []" and i: "i < length nodes"
      and sel: "sel = Some (path (node (nodes ! i)))" and pne: "path (node (nodes ! i)) \<noteq> []"
      and first: "\<forall>j<i. path (node (nodes ! j)) \<noteq> path (node (nodes ! i))"
    have ne: "nodes \<noteq> []" using i by auto
    have "findIndex (\<lambda>item. Some (path (node item)) = sel) nodes = int i"
      using i first by (intro findIndex_first) (simp_all add: sel)
    then have si: "?si = int i" using pne by (simp add: truthy_def sel)
    have "rotate (nat (int i + 1)) nodes = drop (i + 1) nodes @ take (i + 1) nodes"
    proof -
      have "nat (int i + 1) = i + 1" by simp
      moreover have "i + 1 \<le> length nodes" using i by simp
      ultimately show ?thesis by (simp only: rotate_drop_take_le)
    qed
    with findTypeaheadMatch_scan [OF q ne si]
    show "findTypeaheadMatch query nodes sel =
          Inr (find ?M (drop (i + 1) nodes @ take (i + 1) nodes))"
      by simp
  qed
  have c: "toLowerCase (trim query) \<noteq> []
        \<and> (\<not> truthy sel \<or> (\<forall>v \<in> set nodes. Some (path (node v)) \<noteq> sel)) \<longrightarrow>
        findTypeaheadMatch query nodes sel = Inr (find ?M nodes)"
  proof (intro impI, elim conjE)
    assume q: "toLowerCase (trim query) \<noteq> []"
      and ns: "\<not> truthy sel \<or> (\<forall>v \<in> set nodes. Some (path (node v)) \<noteq> sel)"
    show "findTypeaheadMatch query nodes sel = Inr (find ?M nodes)"
    proof (cases "nodes = []")
      case True
      then show ?thesis by (simp add: findTypeaheadMatch_def)
    next
      case False
      have si: "?si = -1" using ns by (auto intro: findIndex_none)
      from findTypeaheadMatch_scan [OF q False si] show ?thesis by simp
    qed
  qed
  have d: "toLowerCase (trim query) \<noteq> [] \<and> i < length nodes
        \<and> (\<forall>j<length nodes. ?M (nodes ! j) = (j = i)) \<longrightarrow>
        findTypeaheadMatch query nodes sel = Inr (Some (nodes ! i))"
  proof (intro impI, elim conjE)
    assume q: "toLowerCase (trim query) \<noteq> []" and i: "i < length nodes"
      and only: "\<forall>j<length nodes. ?M (nodes ! j) = (j = i)"
    have ne: "nodes \<noteq> []" using i by auto
    have "find ?M (rotate (nat (?si + 1)) nodes) = Some (nodes ! i)"
    proof (rule find_unique)
      show "nodes ! i \<in> set (rotate (nat (?si + 1)) nodes)" using i by simp
      show "?M (nodes ! i)" using only i by simp
      fix y assume "y \<in> set (rotate (nat (?si + 1)) nodes)" and m: "?M y"
      then obtain j where j: "j < length nodes" and y: "y = nodes ! j"
        by (auto simp: in_set_conv_nth)
      with only m have "j = i" by simp
      with y show "y = nodes ! i" by simp
    qed
    with findTypeaheadMatch_scan [OF q ne refl]
    show "findTypeaheadMatch query nodes sel = Inr (Some (nodes ! i))" by simp
  qed
  from a b c d show ?thesis by blast
qed

theorem findTypeaheadMatch_circular_witness:
  "findTypeaheadMatch '' '' exNames None = Inr None
   \<and> findTypeaheadMatch ''a'' exNames None = Inr (Some (exNamed ''Apple''))
   \<and> findTypeaheadMatch ''ap'' exNames (Some ''root/Apple'') = Inr (Some (exNamed ''apricot''))
   \<and> findTypeaheadMatch ''a'' exNames (Some ''root/Cherry'') = Inr (Some (exNamed ''apricot''))
   \<and> findTypeaheadMatch ''A '' exNames (Some ''root/apricot'') = Inr (Some (exNamed ''Apple''))
   \<and> findTypeaheadMatch ''b'' exNames (Some ''root/banana'') = Inr (Some (exNamed ''banana''))
   \<and> findTypeaheadMatch [CHR 0xA0, CHR ''a''] exNames None = Inr (Some (exNamed ''Apple''))
   \<and> findTypeaheadMatch [CHR 0xE9] [exEclair] None = Inr (Some exEclair)"
proof -
  let ?M = "\<lambda>q c. startsWith (toLowerCase (name (node c))) (toLowerCase (trim q))"
  have q0: "toLowerCase (trim '' '') = [] \<or> exNames = []" by code_simp
  have r0: "findTypeaheadMatch '' '' exNames None = Inr None"
    using findTypeaheadMatch_circular [where query = "'' ''" and nodes = exNames and sel = None
        and i = 0] q0
    by blast
  have h1: "toLowerCase (trim ''a'') \<noteq> []
      \<and> (\<not> truthy None \<or> (\<forall>v \<in> set exNames. Some (path (node v)) \<noteq> None))"
    by (simp add: truthy_def trim_def isWhiteSpace_def toLowerCase_def)
  have "findTypeaheadMatch ''a'' exNames None = Inr (find (?M ''a'') exNames)"
    using findTypeaheadMatch_circular [where query = "''a''" and nodes = exNames and sel = None
        and i = 0] h1
    by blast
  moreover have "find (?M ''a'') exNames = Some (exNamed ''Apple'')" by code_simp
  ultimately have r1: "findTypeaheadMatch ''a'' exNames None = Inr (Some (exNamed ''Apple''))"
    by simp
  have lt3: "\<And>P. (\<forall>j<3::nat. P j) = (P 0 \<and> P 1 \<and> P 2)"
    by (auto simp: less_Suc_eq numeral_eq_Suc)
  have lt2: "\<And>P. (\<forall>j<2::nat. P j) = (P 0 \<and> P 1)"
    by (auto simp: less_Suc_eq numeral_eq_Suc)
  have h2: "toLowerCase (trim ''ap'') \<noteq> [] \<and> 0 < length exNames
      \<and> Some ''root/Apple'' = Some (path (node (exNames ! 0)))
      \<and> path (node (exNames ! 0)) \<noteq> []
      \<and> (\<forall>j<0. path (node (exNames ! j)) \<noteq> path (node (exNames ! 0)))"
    by (simp add: exNames_def exNamed_def exFile_def trim_def isWhiteSpace_def toLowerCase_def)
  have "findTypeaheadMatch ''ap'' exNames (Some ''root/Apple'') =
      Inr (find (?M ''ap'') (drop (0 + 1) exNames @ take (0 + 1) exNames))"
    using findTypeaheadMatch_circular [where query = "''ap''" and nodes = exNames
        and sel = "Some ''root/Apple''" and i = 0] h2
    by blast
  moreover have "find (?M ''ap'') (drop (0 + 1) exNames @ take (0 + 1) exNames) =
      Some (exNamed ''apricot'')" by code_simp
  ultimately have r2: "findTypeaheadMatch ''ap'' exNames (Some ''root/Apple'') =
      Inr (Some (exNamed ''apricot''))"
    by simp
  have h3: "toLowerCase (trim ''a'') \<noteq> [] \<and> 2 < length exNames
      \<and> Some ''root/Cherry'' = Some (path (node (exNames ! 2)))
      \<and> path (node (exNames ! 2)) \<noteq> []
      \<and> (\<forall>j<2. path (node (exNames ! j)) \<noteq> path (node (exNames ! 2)))"
    by (simp add: lt2 exNames_def exNamed_def exFile_def trim_def isWhiteSpace_def toLowerCase_def)
  have "findTypeaheadMatch ''a'' exNames (Some ''root/Cherry'') =
      Inr (find (?M ''a'') (drop (2 + 1) exNames @ take (2 + 1) exNames))"
    using findTypeaheadMatch_circular [where query = "''a''" and nodes = exNames
        and sel = "Some ''root/Cherry''" and i = 2] h3
    by blast
  moreover have "find (?M ''a'') (drop (2 + 1) exNames @ take (2 + 1) exNames) =
      Some (exNamed ''apricot'')" by code_simp
  ultimately have r3: "findTypeaheadMatch ''a'' exNames (Some ''root/Cherry'') =
      Inr (Some (exNamed ''apricot''))"
    by simp
  have h4: "toLowerCase (trim ''A '') \<noteq> [] \<and> 3 < length exNames
      \<and> Some ''root/apricot'' = Some (path (node (exNames ! 3)))
      \<and> path (node (exNames ! 3)) \<noteq> []
      \<and> (\<forall>j<3. path (node (exNames ! j)) \<noteq> path (node (exNames ! 3)))"
    by (simp add: lt3 exNames_def exNamed_def exFile_def trim_def isWhiteSpace_def toLowerCase_def)
  have "findTypeaheadMatch ''A '' exNames (Some ''root/apricot'') =
      Inr (find (?M ''A '') (drop (3 + 1) exNames @ take (3 + 1) exNames))"
    using findTypeaheadMatch_circular [where query = "''A ''" and nodes = exNames
        and sel = "Some ''root/apricot''" and i = 3] h4
    by blast
  moreover have "find (?M ''A '') (drop (3 + 1) exNames @ take (3 + 1) exNames) =
      Some (exNamed ''Apple'')" by code_simp
  ultimately have r4: "findTypeaheadMatch ''A '' exNames (Some ''root/apricot'') =
      Inr (Some (exNamed ''Apple''))"
    by simp
  have m0: "\<not> ?M ''b'' (exNamed ''Apple'')" by code_simp
  have m1: "?M ''b'' (exNamed ''banana'')" by code_simp
  have m2: "\<not> ?M ''b'' (exNamed ''Cherry'')" by code_simp
  have m3: "\<not> ?M ''b'' (exNamed ''apricot'')" by code_simp
  have qb: "toLowerCase (trim ''b'') \<noteq> []"
    by (simp add: trim_def isWhiteSpace_def toLowerCase_def)
  have h5: "toLowerCase (trim ''b'') \<noteq> [] \<and> 1 < length exNames
      \<and> (\<forall>j<length exNames. ?M ''b'' (exNames ! j) = (j = 1))"
    using m0 m1 m2 m3 qb by (auto simp: exNames_def less_Suc_eq)
  have "findTypeaheadMatch ''b'' exNames (Some ''root/banana'') = Inr (Some (exNames ! 1))"
    using findTypeaheadMatch_circular [where query = "''b''" and nodes = exNames
        and sel = "Some ''root/banana''" and i = 1] h5
    by blast
  then have r5: "findTypeaheadMatch ''b'' exNames (Some ''root/banana'') =
      Inr (Some (exNamed ''banana''))"
    by (simp add: exNames_def)
  have n6: "toLowerCase (trim [CHR 0xA0, CHR ''a'']) = ''a''"
    by code_simp
  have h6: "toLowerCase (trim [CHR 0xA0, CHR ''a'']) \<noteq> []
      \<and> (\<not> truthy None \<or> (\<forall>v \<in> set exNames. Some (path (node v)) \<noteq> None))"
    by (simp add: truthy_def n6)
  have "findTypeaheadMatch [CHR 0xA0, CHR ''a''] exNames None =
      Inr (find (?M [CHR 0xA0, CHR ''a'']) exNames)"
    using findTypeaheadMatch_circular [where query = "[CHR 0xA0, CHR ''a'']" and nodes = exNames
        and sel = None and i = 0] h6
    by blast
  moreover have "find (?M [CHR 0xA0, CHR ''a'']) exNames = Some (exNamed ''Apple'')"
    by code_simp
  ultimately have r6: "findTypeaheadMatch [CHR 0xA0, CHR ''a''] exNames None =
      Inr (Some (exNamed ''Apple''))"
    by simp
  have n7: "toLowerCase (trim [CHR 0xE9]) = [CHR 0xE9]"
    by code_simp
  have h7: "toLowerCase (trim [CHR 0xE9]) \<noteq> []
      \<and> (\<not> truthy None \<or> (\<forall>v \<in> set [exEclair]. Some (path (node v)) \<noteq> None))"
    by (simp add: truthy_def n7)
  have "findTypeaheadMatch [CHR 0xE9] [exEclair] None = Inr (find (?M [CHR 0xE9]) [exEclair])"
    using findTypeaheadMatch_circular [where query = "[CHR 0xE9]" and nodes = "[exEclair]"
        and sel = None and i = 0] h7
    by blast
  moreover have "find (?M [CHR 0xE9]) [exEclair] = Some exEclair"
    by code_simp
  ultimately have r7: "findTypeaheadMatch [CHR 0xE9] [exEclair] None = Inr (Some exEclair)"
    by simp
  from r0 r1 r2 r3 r4 r5 r6 r7 show ?thesis by blast
qed

end
